theory Spec2Isabelle
  imports Main "HOL-Library.Word" "HOL-Library.While_Combinator"
begin

unbundle bit_operations_syntax

section \<open>The EMS flasher: cartridge header validator and block transfer engine\<close>

text \<open>
  A shallow embedding of \<^verbatim>\<open>main.c\<close>. Bytes (\<^verbatim>\<open>unsigned char\<close>, \<^verbatim>\<open>uint8_t\<close>) are
  \<open>8 word\<close>, \<^verbatim>\<open>uint32_t\<close> and \<^verbatim>\<open>unsigned int\<close> are \<open>32 word\<close>, \<^verbatim>\<open>int\<close> is read through
  \<open>sint\<close> on a \<open>32 word\<close>, \<^verbatim>\<open>size_t\<close> is \<open>64 word\<close>. A byte buffer is a list of bytes.
\<close>

type_synonym u8 = "8 word"
type_synonym u32 = "32 word"
type_synonym size_t = "64 word"

subsection \<open>Constants\<close>

text \<open>\<^verbatim>\<open>#define BANK_SIZE 0x400000\<close>, \<^verbatim>\<open>#define SRAM_SIZE 0x020000\<close>.\<close>

abbreviation BANK_SIZE :: int where "BANK_SIZE \<equiv> 0x400000"
abbreviation SRAM_SIZE :: int where "SRAM_SIZE \<equiv> 0x020000"

text \<open>\<^verbatim>\<open>enum headeroffsets\<close>.\<close>

abbreviation HEADER_LOGO :: nat where "HEADER_LOGO \<equiv> 0x104"
abbreviation HEADER_TITLE :: nat where "HEADER_TITLE \<equiv> 0x134"
abbreviation HEADER_CGBFLAG :: nat where "HEADER_CGBFLAG \<equiv> 0x143"
abbreviation HEADER_SGBFLAG :: nat where "HEADER_SGBFLAG \<equiv> 0x146"
abbreviation HEADER_ROMSIZE :: nat where "HEADER_ROMSIZE \<equiv> 0x148"
abbreviation HEADER_CHKSUM :: nat where "HEADER_CHKSUM \<equiv> 0x14D"

text \<open>
  \<^verbatim>\<open>const char nintylogo[0x30]\<close>; the code compares \<^verbatim>\<open>(unsigned char) nintylogo[i]\<close>, so the
  table is given as the unsigned bytes.
\<close>

definition nintylogo :: "u8 list" where
  "nintylogo =
   [0xCE, 0xED, 0x66, 0x66, 0xCC, 0x0D, 0x00, 0x0B,
    0x03, 0x73, 0x00, 0x83, 0x00, 0x0C, 0x00, 0x0D,
    0x00, 0x08, 0x11, 0x1F, 0x88, 0x89, 0x00, 0x0E,
    0xDC, 0xCC, 0x6E, 0xE6, 0xDD, 0xDD, 0xD9, 0x99,
    0xBB, 0xBB, 0x67, 0x63, 0x6E, 0x0E, 0xEC, 0xCC,
    0xDD, 0xDC, 0x99, 0x9F, 0xBB, 0xB9, 0x33, 0x3E]"

subsection \<open>\<^verbatim>\<open>header_info\<close>\<close>

text \<open>
  \<^verbatim>\<open>header_info\<close> prints one line per field; the model returns what is printed as a record.
\<close>

datatype logo_tier = Full | Partial | Fail

datatype hardware = CGB | CGB_SGB_not_real | DMG_CGB_SGB | DMG_CGB | DMG_SGB | DMG

datatype boot_verdict = NoBoot | CgbOnly | Universal

record report =
  title :: "u8 list"
  logo :: logo_tier
  hardware_support :: hardware
  checksum_ok :: bool
  rom_size_kb :: "nat option"
  boot :: boot_verdict

text \<open>
  The title loop: \<^verbatim>\<open>for(i = HEADER_TITLE; i < HEADER_TITLE + 16; i++) { if(buf[i] == 0) break;
  putchar(buf[i]); }\<close>, after \<^verbatim>\<open>NONE\<close> is printed when the first title byte is zero.
\<close>

function title_loop :: "u8 list \<Rightarrow> nat \<Rightarrow> u8 list" where
  "title_loop buf i =
     (if i < HEADER_TITLE + 16 then
        (if buf ! i = 0 then [] else buf ! i # title_loop buf (i + 1))
      else [])"
  by pat_completeness auto
termination
  by (relation "measure (\<lambda>(buf, i). HEADER_TITLE + 16 - i)") auto

declare title_loop.simps [simp del]

definition print_title :: "u8 list \<Rightarrow> u8 list" where
  "print_title buf =
     (if buf ! HEADER_TITLE = 0 then [0x4E, 0x4F, 0x4E, 0x45] else []) @ title_loop buf HEADER_TITLE"

text \<open>
  The logo loop: \<^verbatim>\<open>for(i = 0; i < 0x30; ++i) { if((unsigned char) nintylogo[i] != buf[HEADER_LOGO + i])
  break; }\<close>; the value is \<^verbatim>\<open>i\<close> after the loop.
\<close>

function logo_loop :: "u8 list \<Rightarrow> nat \<Rightarrow> nat" where
  "logo_loop buf i =
     (if i < 0x30 then
        (if nintylogo ! i \<noteq> buf ! (HEADER_LOGO + i) then i else logo_loop buf (i + 1))
      else i)"
  by pat_completeness auto
termination
  by (relation "measure (\<lambda>(buf, i). 0x30 - i)") auto

declare logo_loop.simps [simp del]

text \<open>\<^verbatim>\<open>if(i == 0x30) PASS else if(i > 0x18) "FAIL, but will boot on CGB" else FAIL\<close>.\<close>

definition logo_check :: "u8 list \<Rightarrow> logo_tier" where
  "logo_check buf =
     (let i = logo_loop buf 0 in
      if i = 0x30 then Full else if i > 0x18 then Partial else Fail)"

text \<open>The hardware support chain, in the order of the source.\<close>

definition hardware_check :: "u8 list \<Rightarrow> hardware" where
  "hardware_check buf =
     (let cgb = buf ! HEADER_CGBFLAG; sgb = buf ! HEADER_SGBFLAG in
      if cgb AND 128 \<noteq> 0 \<and> cgb AND 64 \<noteq> 0 then CGB
      else if cgb AND 128 \<noteq> 0 \<and> cgb AND 64 \<noteq> 0 \<and> sgb = 0x03 then CGB_SGB_not_real
      else if cgb AND 128 \<noteq> 0 \<and> sgb = 0x03 then DMG_CGB_SGB
      else if cgb AND 128 \<noteq> 0 then DMG_CGB
      else if sgb = 0x03 then DMG_SGB
      else DMG)"

text \<open>
  The checksum loop: \<^verbatim>\<open>uint8_t calculated_chk = 0; for (i = HEADER_TITLE; i <= HEADER_CHKSUM; ++i)
  calculated_chk += buf[i]; calculated_chk += 25;\<close>
\<close>

function chk_loop :: "u8 list \<Rightarrow> nat \<Rightarrow> u8 \<Rightarrow> u8" where
  "chk_loop buf i acc =
     (if i \<le> HEADER_CHKSUM then chk_loop buf (i + 1) (acc + buf ! i) else acc)"
  by pat_completeness auto
termination
  by (relation "measure (\<lambda>(buf, i, acc). HEADER_CHKSUM + 1 - i)") auto

declare chk_loop.simps [simp del]

definition calculated_chk :: "u8 list \<Rightarrow> u8" where
  "calculated_chk buf = chk_loop buf HEADER_TITLE 0 + 25"

text \<open>\<^verbatim>\<open>if (calculated_chk != 0) FAIL else PASS\<close>.\<close>

definition checksumOk :: "u8 list \<Rightarrow> bool" where
  "checksumOk buf = (\<not> calculated_chk buf \<noteq> 0)"

text \<open>
  The ROM size switch of \<^verbatim>\<open>header_info\<close>: \<^verbatim>\<open>32 << code\<close> KB for the codes 0 to 7, three
  more codes, and \<^verbatim>\<open>Unknown ROM size code\<close> otherwise.
\<close>

definition rom_size_kb_of :: "u8 \<Rightarrow> nat option" where
  "rom_size_kb_of code =
     (if code \<le> 7 then Some (push_bit (unat code) 32)
      else if code = 0x52 then Some 1152
      else if code = 0x53 then Some 1280
      else if code = 0x54 then Some 1536
      else None)"

text \<open>
  \<^verbatim>\<open>willboot\<close> starts at 2, the logo branch sets it to 1 or 0, the checksum branch sets it to 0,
  and the final switch prints the verdict (0: no system, 1: CGB only, default: any system).
\<close>

definition willboot_of :: "logo_tier \<Rightarrow> bool \<Rightarrow> nat" where
  "willboot_of tier chk =
     (let willboot = 2;
          willboot = (case tier of Full \<Rightarrow> willboot | Partial \<Rightarrow> 1 | Fail \<Rightarrow> 0);
          willboot = (if \<not> chk then 0 else willboot)
      in willboot)"

definition boot_status :: "nat \<Rightarrow> boot_verdict" where
  "boot_status willboot =
     (if willboot = 0 then NoBoot else if willboot = 1 then CgbOnly else Universal)"

text \<open>
  \<^verbatim>\<open>header_info(buf)\<close>. The largest index read is \<^verbatim>\<open>HEADER_CHKSUM\<close>; on a shorter buffer the
  C code reads past its end, which is undefined: the model returns \<open>None\<close> there.
\<close>

definition header_info :: "u8 list \<Rightarrow> report option" where
  "header_info buf =
     (if length buf \<le> HEADER_CHKSUM then None
      else Some \<lparr> title = print_title buf,
                  logo = logo_check buf,
                  hardware_support = hardware_check buf,
                  checksum_ok = checksumOk buf,
                  rom_size_kb = rom_size_kb_of (buf ! HEADER_ROMSIZE),
                  boot = boot_status (willboot_of (logo_check buf) (checksumOk buf)) \<rparr>)"

subsection \<open>The device and the files\<close>

text \<open>
  Modelled from the spec: the address spaces \<^verbatim>\<open>FROM_ROM\<close>, \<^verbatim>\<open>FROM_SRAM\<close> (\<^verbatim>\<open>TO_ROM\<close>,
  \<^verbatim>\<open>TO_SRAM\<close> for a write) are declared in \<^verbatim>\<open>ems.h\<close>, which is not part of the sources
  at hand. The spec has two spaces, ROM and SRAM, each with its nominal size.
\<close>

datatype space = Rom | Sram

text \<open>\<^verbatim>\<open>const int limits[3] = {0, BANK_SIZE, SRAM_SIZE}\<close>, indexed by the space.\<close>

fun limits :: "space \<Rightarrow> int" where
  "limits Rom = BANK_SIZE"
| "limits Sram = SRAM_SIZE"

text \<open>
  Modelled from the spec: \<^verbatim>\<open>ems_read\<close> and \<^verbatim>\<open>ems_write\<close> (\<^verbatim>\<open>ems.c\<close> is not part of the
  sources at hand) read or write \<open>count\<close> bytes at an address of a space; they block, and
  return an error rather than a partial result. The device is its contents and the addresses
  at which a transfer fails; what is written to it is kept as the list of the calls issued
  (\<open>ops\<close> below).
\<close>

record device =
  mem :: "space \<Rightarrow> u32 \<Rightarrow> u8"
  read_fails :: "space \<Rightarrow> u32 \<Rightarrow> bool"
  write_fails :: "space \<Rightarrow> u32 \<Rightarrow> bool"

definition ems_read :: "device \<Rightarrow> space \<Rightarrow> u32 \<Rightarrow> nat \<Rightarrow> u8 list option" where
  "ems_read d sp addr count =
     (if read_fails d sp addr then None
      else Some (map (\<lambda>i. mem d sp (addr + word_of_nat i)) [0..<count]))"

definition ems_write :: "device \<Rightarrow> space \<Rightarrow> u32 \<Rightarrow> u8 list \<Rightarrow> nat \<Rightarrow> bool" where
  "ems_write d sp addr buf count = (\<not> write_fails d sp addr)"

text \<open>
  What the program meets outside the device: whether the save file opens, at which offsets
  \<^verbatim>\<open>fwrite\<close> fails, the bytes of the file to write (\<open>None\<close> when it cannot be
  opened), and whether that file can seek (a regular file can, a pipe cannot). The model
  starts where \<^verbatim>\<open>ems_init\<close> and \<^verbatim>\<open>malloc\<close> have succeeded.
\<close>

record env =
  dev :: device
  save_open_fails :: bool
  fwrite_fails :: "u32 \<Rightarrow> bool"
  write_file :: "u8 list option"
  write_seekable :: bool

text \<open>
  The ways a transfer stops early; \<open>BufferOverrun\<close> is a read outside the block or the
  string, which C leaves undefined.
\<close>

datatype error =
    CannotOpenFile
  | DeviceReadFailed
  | FileWriteFailed
  | DeviceWriteFailed
  | FileTooLarge
  | BufferOverrun

text \<open>A call of the device: the space, the address and the count passed.\<close>

datatype dev_op = DevRead space u32 nat | DevWrite space u32 nat

fun op_count :: "dev_op \<Rightarrow> nat" where
  "op_count (DevRead sp addr n) = n"
| "op_count (DevWrite sp addr n) = n"

fun is_write :: "dev_op \<Rightarrow> bool" where
  "is_write (DevRead sp addr n) = False"
| "is_write (DevWrite sp addr n) = True"

text \<open>
  The locals of \<^verbatim>\<open>main\<close> that a transfer changes (\<open>offset\<close>, \<open>readuntil\<close>, \<open>untilset\<close>),
  and its effects: the device calls issued (\<open>ops\<close>), the bytes appended to the save file
  (\<open>saved\<close>), the part of the input file not yet read (\<open>rest\<close>), the number of
  times the narrowing switch was entered (\<open>switched\<close>), the size bytes it has read
  (\<open>examined\<close>), and the error the program stopped with (\<open>failure\<close>,
  \<open>None\<close> while it runs and when it returns 0).
\<close>

record session =
  offset :: u32
  readuntil :: u32
  untilset :: bool
  ops :: "dev_op list"
  saved :: "u8 list"
  rest :: "u8 list"
  switched :: nat
  examined :: "u8 list"
  failure :: "error option"

definition start :: session where
  "start = \<lparr> offset = 0, readuntil = 0, untilset = False, ops = [], saved = [], rest = [],
             switched = 0, examined = [], failure = None \<rparr>"

definition exit_code :: "session \<Rightarrow> nat" where
  "exit_code s = (if failure s = None then 0 else 1)"

text \<open>\<^verbatim>\<open>uint32_t base = opts.bank * BANK_SIZE\<close>.\<close>

definition base_of :: "u32 \<Rightarrow> u32" where
  "base_of bank = bank * word_of_int BANK_SIZE"

subsection \<open>The read loop\<close>

text \<open>
  \<^verbatim>\<open>while ((int)(offset + blocksize) <= readuntil)\<close>: \<open>readuntil\<close> is an \<^verbatim>\<open>unsigned int\<close>, so
  the \<^verbatim>\<open>int\<close> is converted back and the comparison is unsigned.
\<close>

definition read_cond :: "u32 \<Rightarrow> session \<Rightarrow> bool" where
  "read_cond blocksize s \<longleftrightarrow> failure s = None \<and> offset s + blocksize \<le> readuntil s"

text \<open>The index \<^verbatim>\<open>HEADER_ROMSIZE - (offset - blocksize)\<close> into the block, in \<^verbatim>\<open>uint32_t\<close>.\<close>

definition romsize_index :: "u32 \<Rightarrow> u32 \<Rightarrow> u32" where
  "romsize_index off blocksize = word_of_nat HEADER_ROMSIZE - (off - blocksize)"

text \<open>
  The switch on the size byte: \<^verbatim>\<open>(32 << code) * 1024\<close> for the codes 0 to 7, three more
  codes, and no change of \<open>readuntil\<close> otherwise.
\<close>

definition narrow :: "u8 \<Rightarrow> u32 \<Rightarrow> u32" where
  "narrow code until =
     (if code \<le> 7 then push_bit (unat code) 32 * 1024
      else if code = 0x52 then 1152 * 1024
      else if code = 0x53 then 1280 * 1024
      else if code = 0x54 then 1536 * 1024
      else until)"

text \<open>
  One iteration: \<^verbatim>\<open>ems_read\<close> (a failure returns 1), \<^verbatim>\<open>fwrite\<close> (a failure is fatal),
  \<^verbatim>\<open>offset += blocksize\<close>, and the narrowing of \<open>readuntil\<close>: when its guard holds the
  switch is entered (counted in \<open>switched\<close>), and \<^verbatim>\<open>untilset = 1\<close> follows the switch on
  every case. The block \<open>buf\<close> holds \<open>blocksize\<close> bytes; an index outside it is a read
  outside the allocation, which the model stops at with \<open>BufferOverrun\<close>.
\<close>

definition read_body :: "env \<Rightarrow> space \<Rightarrow> u32 \<Rightarrow> u32 \<Rightarrow> session \<Rightarrow> session" where
  "read_body e sp base blocksize s =
     (let s = s\<lparr>ops := ops s @ [DevRead sp (offset s + base) (unat blocksize)]\<rparr> in
      case ems_read (dev e) sp (offset s + base) (unat blocksize) of
        None \<Rightarrow> s\<lparr>failure := Some DeviceReadFailed\<rparr>
      | Some buf \<Rightarrow>
          if fwrite_fails e (offset s) then s\<lparr>failure := Some FileWriteFailed\<rparr>
          else
            (let s = s\<lparr>saved := saved s @ buf, offset := offset s + blocksize\<rparr> in
             if word_of_nat HEADER_ROMSIZE \<le> offset s \<and> \<not> untilset s \<and> sp = Rom then
               (let s = s\<lparr>switched := switched s + 1\<rparr>;
                    i = unat (romsize_index (offset s) blocksize) in
                if i < length buf then
                  s\<lparr>readuntil := narrow (buf ! i) (readuntil s), untilset := True,
                    examined := examined s @ [buf ! i]\<rparr>
                else s\<lparr>failure := Some BufferOverrun\<rparr>)
             else s))"

definition read_loop :: "env \<Rightarrow> space \<Rightarrow> u32 \<Rightarrow> u32 \<Rightarrow> session \<Rightarrow> session option" where
  "read_loop e sp base blocksize s =
     while_option (read_cond blocksize) (read_body e sp base blocksize) s"

text \<open>
  The read branch of \<^verbatim>\<open>main\<close>: open the save file, \<^verbatim>\<open>readuntil = limits[space]\<close>,
  \<^verbatim>\<open>untilset = 0\<close>, and the loop. \<open>None\<close> is a loop that does not end.
\<close>

definition read_session :: "env \<Rightarrow> space \<Rightarrow> u32 \<Rightarrow> u32 \<Rightarrow> session option" where
  "read_session e sp bank blocksize =
     (if save_open_fails e then Some (start\<lparr>failure := Some CannotOpenFile\<rparr>)
      else read_loop e sp (base_of bank) blocksize
             (start\<lparr>readuntil := word_of_int (limits sp), untilset := False\<rparr>))"

subsection \<open>The write loop\<close>

text \<open>
  \<^verbatim>\<open>int size = ftell(write_file)\<close> on a file that can seek: \<^verbatim>\<open>ftell\<close> returns the
  length as a \<^verbatim>\<open>long\<close> (64 bits), and the assignment to an \<^verbatim>\<open>int\<close> keeps its low 32
  bits, read as a signed value.
\<close>

definition ftell_size :: "u8 list \<Rightarrow> int" where
  "ftell_size bytes = sint (word_of_nat (length bytes) :: u32)"

text \<open>
  \<^verbatim>\<open>while ((int)(offset + blocksize) <= limits[space] && fread(buf, blocksize, 1, write_file) == 1)\<close>:
  both sides of the comparison are \<^verbatim>\<open>int\<close>, so it is signed; \<^verbatim>\<open>fread\<close> gives 1 when a whole
  block is left in the file.
\<close>

definition write_cond :: "space \<Rightarrow> u32 \<Rightarrow> session \<Rightarrow> bool" where
  "write_cond sp blocksize s \<longleftrightarrow>
     failure s = None \<and> sint (offset s + blocksize) \<le> limits sp \<and>
     unat blocksize \<le> length (rest s)"

definition write_body :: "env \<Rightarrow> space \<Rightarrow> u32 \<Rightarrow> u32 \<Rightarrow> session \<Rightarrow> session" where
  "write_body e sp base blocksize s =
     (let buf = take (unat blocksize) (rest s);
          s = s\<lparr>rest := drop (unat blocksize) (rest s),
                ops := ops s @ [DevWrite sp (offset s + base) (unat blocksize)]\<rparr> in
      if \<not> ems_write (dev e) sp (offset s + base) buf (unat blocksize)
      then s\<lparr>failure := Some DeviceWriteFailed\<rparr>
      else s\<lparr>offset := offset s + blocksize\<rparr>)"

definition write_loop :: "env \<Rightarrow> space \<Rightarrow> u32 \<Rightarrow> u32 \<Rightarrow> session \<Rightarrow> session option" where
  "write_loop e sp base blocksize s =
     while_option (write_cond sp blocksize) (write_body e sp base blocksize) s"

text \<open>
  The write branch of \<^verbatim>\<open>main\<close>: open the file, take its size, refuse a file larger than
  4 MiB for ROM or 128 KiB for SRAM, and the loop. On a file that cannot seek \<^verbatim>\<open>fseek\<close>
  fails and \<^verbatim>\<open>ftell\<close> returns -1, which is the size the check then sees; \<^verbatim>\<open>fread\<close>
  reads such a file from its start all the same.
\<close>

definition write_session :: "env \<Rightarrow> space \<Rightarrow> u32 \<Rightarrow> u32 \<Rightarrow> session option" where
  "write_session e sp bank blocksize =
     (case write_file e of
        None \<Rightarrow> Some (start\<lparr>failure := Some CannotOpenFile\<rparr>)
      | Some bytes \<Rightarrow>
          (let size = (if write_seekable e then ftell_size bytes else - 1) in
           if size > 4 * 1024 * 1024 \<and> sp = Rom then Some (start\<lparr>failure := Some FileTooLarge\<rparr>)
           else if size > 128 * 1024 \<and> sp = Sram then Some (start\<lparr>failure := Some FileTooLarge\<rparr>)
           else write_loop e sp (base_of bank) blocksize (start\<lparr>rest := bytes\<rparr>)))"

subsection \<open>The choice of the space\<close>

text \<open>
  \<^verbatim>\<open>tolower\<close> of the C library, in the C locale (the program never sets another).
\<close>

definition c_tolower :: "char \<Rightarrow> char" where
  "c_tolower c =
     (if (0x41 :: nat) \<le> of_char c \<and> of_char c \<le> (0x5A :: nat)
      then char_of (of_char c + (0x20 :: nat)) else c)"

text \<open>
  \<^verbatim>\<open>file[i]\<close> for a \<^verbatim>\<open>size_t i\<close>: the characters of the name, then its terminating NUL; any
  other index is outside the string. A file name is given as the characters before the NUL.
\<close>

definition string_at :: "string \<Rightarrow> size_t \<Rightarrow> char option" where
  "string_at file i =
     (if unat i < length file then Some (file ! unat i)
      else if unat i = length file then Some (CHR 0x00)
      else None)"

text \<open>
  The autodetection of \<^verbatim>\<open>main\<close>: \<^verbatim>\<open>size_t namelen = strlen(opts.file)\<close>, and the four
  comparisons joined by \<^verbatim>\<open>&&\<close>, which stop at the first that fails. The subtractions are in
  \<^verbatim>\<open>size_t\<close> and wrap around.
\<close>

definition detect_space :: "string \<Rightarrow> error + space" where
  "detect_space file =
     (let namelen = (word_of_nat (length file) :: size_t) in
      case string_at file (namelen - 4) of
        None \<Rightarrow> Inl BufferOverrun
      | Some c4 \<Rightarrow>
          if c4 \<noteq> CHR ''.'' then Inr Rom
          else (case string_at file (namelen - 3) of
            None \<Rightarrow> Inl BufferOverrun
          | Some c3 \<Rightarrow>
              if c_tolower c3 \<noteq> CHR ''s'' then Inr Rom
              else (case string_at file (namelen - 2) of
                None \<Rightarrow> Inl BufferOverrun
              | Some c2 \<Rightarrow>
                  if c_tolower c2 \<noteq> CHR ''a'' then Inr Rom
                  else (case string_at file (namelen - 1) of
                    None \<Rightarrow> Inl BufferOverrun
                  | Some c1 \<Rightarrow>
                      if c_tolower c1 \<noteq> CHR ''v'' then Inr Rom else Inr Sram))))"

text \<open>
  \<^verbatim>\<open>int space = opts.space; if (space == 0 && opts.file != NULL) { ... }\<close>: the
  autodetection runs when no space is forced and a file name is given.
\<close>

definition resolve_space :: "space option \<Rightarrow> string option \<Rightarrow> error + space option" where
  "resolve_space forced file =
     (case (forced, file) of
        (None, Some name) \<Rightarrow>
          (case detect_space name of Inl err \<Rightarrow> Inl err | Inr sp \<Rightarrow> Inr (Some sp))
      | _ \<Rightarrow> Inr forced)"

subsection \<open>The words of the specification\<close>

text \<open>
  The logo field agrees with the reference pattern at index \<open>j\<close>; \<open>k\<close> is the index of the
  first mismatch within the 0x30 bytes of the field.
\<close>

definition logo_match :: "u8 list \<Rightarrow> nat \<Rightarrow> bool" where
  "logo_match buf j \<longleftrightarrow> nintylogo ! j = buf ! (HEADER_LOGO + j)"

definition first_mismatch :: "u8 list \<Rightarrow> nat \<Rightarrow> bool" where
  "first_mismatch buf k \<longleftrightarrow> k < 0x30 \<and> \<not> logo_match buf k \<and> (\<forall>j<k. logo_match buf j)"

text \<open>
  A cartridge whose bytes are all zero, with no failing transfer, and no input file; the
  examples below run on it.
\<close>

definition zero_env :: env where
  "zero_env = \<lparr>
      dev = \<lparr> mem = (\<lambda>sp a. 0), read_fails = (\<lambda>sp a. False), write_fails = (\<lambda>sp a. False) \<rparr>,
      save_open_fails = False, fwrite_fails = (\<lambda>off. False), write_file = None,
      write_seekable = True \<rparr>"

text \<open>
  Two more cartridges: one whose bytes are all 0xFF (an unknown size code), and the zero
  cartridge with an input file of 70 bytes.
\<close>

definition ff_env :: env where
  "ff_env = zero_env\<lparr>dev := (dev zero_env)\<lparr>mem := (\<lambda>sp a. 0xFF)\<rparr>\<rparr>"

definition file_env :: env where
  "file_env = zero_env\<lparr>write_file := Some (replicate 70 0)\<rparr>"

text \<open>The zero cartridge with an input file of 2 GiB (2147483648 bytes).\<close>

definition huge_env :: env where
  "huge_env = zero_env\<lparr>write_file := Some (replicate 2147483648 0)\<rparr>"

subsection \<open>Invariants of the loops\<close>

text \<open>
  The cases of one iteration of the read loop: both transfers of the iteration succeed
  (\<open>transfer_ok\<close>), the narrowing branch is taken (\<open>narrows\<close>, on the offset after the
  increment), and the byte the switch reads (\<open>size_byte\<close>).
\<close>

definition transfer_ok :: "env \<Rightarrow> space \<Rightarrow> u32 \<Rightarrow> session \<Rightarrow> bool" where
  "transfer_ok e sp base s \<longleftrightarrow>
     \<not> read_fails (dev e) sp (offset s + base) \<and> \<not> fwrite_fails e (offset s)"

definition narrows :: "space \<Rightarrow> u32 \<Rightarrow> session \<Rightarrow> bool" where
  "narrows sp b s \<longleftrightarrow> word_of_nat HEADER_ROMSIZE \<le> offset s + b \<and> \<not> untilset s \<and> sp = Rom"

definition size_byte :: "env \<Rightarrow> space \<Rightarrow> u32 \<Rightarrow> u32 \<Rightarrow> session \<Rightarrow> u8" where
  "size_byte e sp base b s =
     mem (dev e) sp (offset s + base + word_of_nat (unat (romsize_index (offset s + b) b)))"

text \<open>
  What every state of the read loop satisfies: the offset and the bound stay within the
  nominal limit of the space, the offset is a multiple of the block size, every device call
  has the block size as its count, the offset is within the bound unless the very first
  block already went past a narrowed bound, the narrowing has not run while the offset is
  below the size byte, the bound is the nominal limit before the narrowing and the
  decoded size after it, and the switch has been entered once when \<open>untilset\<close> is set, not
  at all in a running session where it is not, and never twice.
\<close>

definition read_inv :: "space \<Rightarrow> u32 \<Rightarrow> session \<Rightarrow> bool" where
  "read_inv sp b s \<longleftrightarrow>
     unat (offset s) \<le> nat (limits sp) \<and>
     unat (readuntil s) \<le> nat (limits sp) \<and>
     unat b dvd unat (offset s) \<and>
     (\<forall>x \<in> set (ops s). op_count x = unat b) \<and>
     (failure s = None \<longrightarrow>
        offset s \<le> readuntil s \<or> (sp = Rom \<and> offset s = b \<and> readuntil s < b)) \<and>
     (failure s = None \<longrightarrow> \<not> untilset s \<longrightarrow> sp = Rom \<longrightarrow> unat (offset s) < HEADER_ROMSIZE) \<and>
     (\<not> untilset s \<longrightarrow> readuntil s = word_of_int (limits sp) \<and> examined s = []) \<and>
     (untilset s \<longrightarrow> sp = Rom \<and>
        (\<exists>c. examined s = [c] \<and> readuntil s = narrow c (word_of_int (limits sp)))) \<and>
     switched s \<le> 1 \<and>
     (failure s = None \<longrightarrow> \<not> untilset s \<longrightarrow> switched s = 0) \<and>
     (untilset s \<longrightarrow> switched s = 1)"

definition read_measure :: "space \<Rightarrow> session \<Rightarrow> nat" where
  "read_measure sp s =
     (if failure s = None then nat (limits sp) + 1 - unat (offset s) else 0)"

text \<open>
  What every state of the write loop satisfies: the offset stays within the limit of the
  space and is the block size times the number of device writes, and once a block has been
  written the block size is itself within the limit.
\<close>

definition write_inv :: "space \<Rightarrow> u32 \<Rightarrow> session \<Rightarrow> bool" where
  "write_inv sp b s \<longleftrightarrow>
     unat (offset s) \<le> nat (limits sp) \<and>
     unat b dvd unat (offset s) \<and>
     (\<forall>x \<in> set (ops s). op_count x = unat b \<and> is_write x) \<and>
     (offset s = 0 \<or> unat b \<le> nat (limits sp)) \<and>
     (failure s = None \<longrightarrow> unat (offset s) = length (ops s) * unat b)"

definition write_measure :: "session \<Rightarrow> nat" where
  "write_measure s = (if failure s = None then length (rest s) + 1 else 0)"

text \<open>The write loop on the 2 GiB file: nothing fails, and no byte of the file is lost.\<close>

definition huge_inv :: "session \<Rightarrow> bool" where
  "huge_inv s \<longleftrightarrow> write_inv Rom 32 s \<and> failure s = None \<and>
     length (rest s) + unat (offset s) = 2147483648"

section \<open>The header validator\<close>

subsection \<open>The checksum loop is a sum modulo 256\<close>

lemma chk_loop_sum:
  "i \<le> HEADER_CHKSUM + 1 \<Longrightarrow> chk_loop buf i acc = acc + (\<Sum>k = i..HEADER_CHKSUM. buf ! k)"
proof (induction buf i acc rule: chk_loop.induct)
  case (1 buf i acc)
  show ?case
  proof (cases "i \<le> HEADER_CHKSUM")
    case True
    then have "chk_loop buf i acc = chk_loop buf (i + 1) (acc + buf ! i)"
      by (subst chk_loop.simps) simp
    also have "\<dots> = acc + buf ! i + (\<Sum>k = i + 1..HEADER_CHKSUM. buf ! k)"
      using "1.IH" True by simp
    also have "\<dots> = acc + (\<Sum>k = i..HEADER_CHKSUM. buf ! k)"
      using True by (simp add: sum.atLeast_Suc_atMost add.assoc)
    finally show ?thesis .
  next
    case False
    with "1.prems" have "i = HEADER_CHKSUM + 1" by simp
    then show ?thesis by (subst chk_loop.simps) simp
  qed
qed

lemma calculated_chk_of_nat:
  "calculated_chk buf = of_nat ((\<Sum>k = HEADER_TITLE..HEADER_CHKSUM. unat (buf ! k)) + 25)"
  by (simp add: calculated_chk_def chk_loop_sum)

lemma checksumOk_iff:
  "checksumOk buf \<longleftrightarrow> ((\<Sum>k = HEADER_TITLE..HEADER_CHKSUM. unat (buf ! k)) + 25) mod 256 = 0"
proof -
  let ?n = "(\<Sum>k = HEADER_TITLE..HEADER_CHKSUM. unat (buf ! k)) + 25"
  have "(word_of_nat ?n = (0 :: u8)) = (2 ^ LENGTH(8) dvd ?n)"
    by (rule word_of_nat_eq_0_iff)
  then have "(calculated_chk buf = 0) = (256 dvd ?n)"
    by (simp only: calculated_chk_of_nat) simp
  then show ?thesis
    by (simp add: checksumOk_def mod_eq_0_iff_dvd)
qed

subsection \<open>The logo loop stops at the first mismatch\<close>

lemma logo_loop_spec:
  "i \<le> 0x30 \<Longrightarrow> (\<forall>j<i. logo_match buf j) \<Longrightarrow>
   logo_loop buf i \<le> 0x30 \<and> (\<forall>j<logo_loop buf i. logo_match buf j) \<and>
   (logo_loop buf i < 0x30 \<longrightarrow> \<not> logo_match buf (logo_loop buf i))"
proof (induction buf i rule: logo_loop.induct)
  case (1 buf i)
  show ?case
  proof (cases "i < 0x30 \<and> logo_match buf i")
    case True
    then have step: "logo_loop buf i = logo_loop buf (i + 1)"
      by (subst logo_loop.simps) (simp add: logo_match_def)
    have "\<forall>j<i + 1. logo_match buf j"
      using "1.prems"(2) True by (auto simp: less_Suc_eq)
    with "1.IH" True show ?thesis
      unfolding step by (simp add: logo_match_def)
  next
    case False
    then have "logo_loop buf i = i"
      by (subst logo_loop.simps) (auto simp: logo_match_def)
    with False "1.prems" show ?thesis by auto
  qed
qed

lemma first_mismatch_unique:
  "first_mismatch buf k \<Longrightarrow> first_mismatch buf k' \<Longrightarrow> k = k'"
proof (rule ccontr)
  assume fm: "first_mismatch buf k" "first_mismatch buf k'" and ne: "k \<noteq> k'"
  from ne consider "k < k'" | "k' < k" by (cases k k' rule: linorder_cases) auto
  then show False
  proof cases
    case 1
    with fm(2) have "logo_match buf k" by (simp add: first_mismatch_def)
    with fm(1) show False by (simp add: first_mismatch_def)
  next
    case 2
    with fm(1) have "logo_match buf k'" by (simp add: first_mismatch_def)
    with fm(2) show False by (simp add: first_mismatch_def)
  qed
qed

lemma logo_loop_first_mismatch:
  "first_mismatch buf k \<Longrightarrow> logo_loop buf 0 = k"
proof -
  assume fm: "first_mismatch buf k"
  let ?r = "logo_loop buf 0"
  have spec: "?r \<le> 0x30 \<and> (\<forall>j<?r. logo_match buf j) \<and> (?r < 0x30 \<longrightarrow> \<not> logo_match buf ?r)"
    by (rule logo_loop_spec) simp_all
  have "?r \<noteq> 0x30"
  proof
    assume "?r = 0x30"
    with spec have "\<forall>j<0x30. logo_match buf j" by simp
    moreover from fm have "k < 0x30" by (simp add: first_mismatch_def)
    ultimately have "logo_match buf k" by blast
    with fm show False by (simp add: first_mismatch_def)
  qed
  with spec have "?r < 0x30" by simp
  with spec have "first_mismatch buf ?r"
    by (simp add: first_mismatch_def)
  then show ?thesis using fm by (rule first_mismatch_unique)
qed

lemma logo_loop_no_mismatch:
  "(\<nexists>k. first_mismatch buf k) \<Longrightarrow> logo_loop buf 0 = 0x30"
proof -
  assume none: "\<nexists>k. first_mismatch buf k"
  let ?r = "logo_loop buf 0"
  have spec: "?r \<le> 0x30 \<and> (\<forall>j<?r. logo_match buf j) \<and> (?r < 0x30 \<longrightarrow> \<not> logo_match buf ?r)"
    by (rule logo_loop_spec) simp_all
  have "\<not> ?r < 0x30"
  proof
    assume "?r < 0x30"
    with spec have "first_mismatch buf ?r" by (simp add: first_mismatch_def)
    with none show False by blast
  qed
  with spec show ?thesis by simp
qed

lemma logo_loop_cases:
  "(logo_loop buf 0 = 0x30 \<and> (\<nexists>k. first_mismatch buf k)) \<or>
   (logo_loop buf 0 < 0x30 \<and> first_mismatch buf (logo_loop buf 0))"
proof (cases "\<exists>k. first_mismatch buf k")
  case True
  then obtain k where k: "first_mismatch buf k" ..
  then have "logo_loop buf 0 = k" by (rule logo_loop_first_mismatch)
  with k show ?thesis by (simp add: first_mismatch_def)
next
  case False
  then show ?thesis by (simp add: logo_loop_no_mismatch)
qed

lemma logo_check_Full: "logo_check buf = Full \<longleftrightarrow> (\<nexists>k. first_mismatch buf k)"
proof -
  from logo_loop_cases [of buf] show ?thesis
  proof
    assume "logo_loop buf 0 = 0x30 \<and> (\<nexists>k. first_mismatch buf k)"
    then show ?thesis by (simp add: logo_check_def)
  next
    assume a: "logo_loop buf 0 < 0x30 \<and> first_mismatch buf (logo_loop buf 0)"
    then have "logo_check buf \<noteq> Full" by (simp add: logo_check_def Let_def)
    with a show ?thesis by blast
  qed
qed

lemma logo_check_Partial:
  "logo_check buf = Partial \<longleftrightarrow> (\<exists>k. first_mismatch buf k \<and> 0x18 < k \<and> k < 0x30)"
proof -
  from logo_loop_cases [of buf] show ?thesis
  proof
    assume a: "logo_loop buf 0 = 0x30 \<and> (\<nexists>k. first_mismatch buf k)"
    then have "logo_check buf \<noteq> Partial" by (simp add: logo_check_def)
    with a show ?thesis by blast
  next
    assume a: "logo_loop buf 0 < 0x30 \<and> first_mismatch buf (logo_loop buf 0)"
    define r where "r = logo_loop buf 0"
    from a have r: "r < 0x30" "first_mismatch buf r" by (simp_all add: r_def)
    have tier: "logo_check buf = Partial \<longleftrightarrow> 0x18 < r"
      using r(1) by (simp add: logo_check_def Let_def r_def [symmetric])
    have "(\<exists>k. first_mismatch buf k \<and> 0x18 < k \<and> k < 0x30) \<longleftrightarrow> 0x18 < r"
      using r first_mismatch_unique [OF r(2)] by blast
    with tier show ?thesis by simp
  qed
qed

lemma logo_check_Fail:
  "logo_check buf = Fail \<longleftrightarrow> (\<exists>k. first_mismatch buf k \<and> k \<le> 0x18)"
proof -
  from logo_loop_cases [of buf] show ?thesis
  proof
    assume a: "logo_loop buf 0 = 0x30 \<and> (\<nexists>k. first_mismatch buf k)"
    then have "logo_check buf \<noteq> Fail" by (simp add: logo_check_def)
    with a show ?thesis by blast
  next
    assume a: "logo_loop buf 0 < 0x30 \<and> first_mismatch buf (logo_loop buf 0)"
    define r where "r = logo_loop buf 0"
    from a have r: "r < 0x30" "first_mismatch buf r" by (simp_all add: r_def)
    have tier: "logo_check buf = Fail \<longleftrightarrow> r \<le> 0x18"
      using r(1) by (simp add: logo_check_def Let_def r_def [symmetric] not_less)
    have "(\<exists>k. first_mismatch buf k \<and> k \<le> 0x18) \<longleftrightarrow> r \<le> 0x18"
      using r first_mismatch_unique [OF r(2)] by blast
    with tier show ?thesis by simp
  qed
qed

subsection \<open>Headers to run the validator on\<close>

lemma logo_check_zeros: "logo_check (replicate 512 0) = Fail"
  by (simp add: logo_check_def logo_loop.simps nintylogo_def)

lemma first_mismatch_zeros: "first_mismatch (replicate 512 0) 0"
  by (simp add: first_mismatch_def logo_match_def nintylogo_def)

lemma checksumOk_E7: "checksumOk ((replicate 512 0)[0x14D := 0xE7])"
  by (simp add: checksumOk_def calculated_chk_def chk_loop.simps)

lemma checksumOk_zeros: "\<not> checksumOk (replicate 512 0)"
  by (simp add: checksumOk_def calculated_chk_def chk_loop.simps)

lemma checksumOk_zeros_mutated: "\<not> checksumOk ((replicate 512 0)[0x135 := 1])"
  by (simp add: checksumOk_def calculated_chk_def chk_loop.simps)

lemma calculated_chk_sum:
  "calculated_chk buf = (\<Sum>k = HEADER_TITLE..HEADER_CHKSUM. buf ! k) + 25"
  by (simp add: calculated_chk_def chk_loop_sum)

lemma sum_list_update:
  fixes buf :: "u8 list"
  assumes "finite A" "off \<in> A" "off < length buf"
  shows "(\<Sum>k\<in>A. buf[off := v] ! k) = (\<Sum>k\<in>A. buf ! k) - buf ! off + v"
proof -
  have "(\<Sum>k\<in>A. buf[off := v] ! k) = buf[off := v] ! off + (\<Sum>k\<in>A - {off}. buf[off := v] ! k)"
    using assms(1,2) by (rule sum.remove)
  also have "(\<Sum>k\<in>A - {off}. buf[off := v] ! k) = (\<Sum>k\<in>A - {off}. buf ! k)"
    by (rule sum.cong) auto
  also have "buf[off := v] ! off = v" using assms(3) by simp
  finally have l: "(\<Sum>k\<in>A. buf[off := v] ! k) = v + (\<Sum>k\<in>A - {off}. buf ! k)" .
  have "(\<Sum>k\<in>A. buf ! k) = buf ! off + (\<Sum>k\<in>A - {off}. buf ! k)"
    using assms(1,2) by (rule sum.remove)
  with l show ?thesis by simp
qed

subsection \<open>The claims about the header validator\<close>

text \<open>
  C5. For every header buffer of at least 0x14E bytes, \<open>checksum_ok\<close> holds exactly when the
  sum of the bytes from offset 0x134 to offset 0x14D inclusive, plus 25, is 0 modulo 256.
\<close>

theorem checksum_rule:
  assumes "0x14E \<le> length buf"
  shows "\<exists>r. header_info buf = Some r \<and>
           (checksum_ok r \<longleftrightarrow>
              ((\<Sum>k = HEADER_TITLE..HEADER_CHKSUM. unat (buf ! k)) + 25) mod 256 = 0)"
  using assms by (simp add: header_info_def checksumOk_iff)

theorem checksum_rule_witness:
  "(0x14E :: nat) \<le> length ((replicate 512 0)[0x14D := 0xE7 :: u8]) \<and>
   (\<exists>r. header_info ((replicate 512 0)[0x14D := 0xE7]) = Some r \<and> checksum_ok r \<and>
      ((\<Sum>k = HEADER_TITLE..HEADER_CHKSUM. unat ((replicate 512 0)[0x14D := 0xE7 :: u8] ! k)) + 25)
        mod 256 = 0)"
proof -
  define B :: "u8 list" where "B = (replicate 512 0)[0x14D := 0xE7]"
  define S where "S = (\<Sum>k = HEADER_TITLE..HEADER_CHKSUM. unat (B ! k)) + 25"
  have len: "(0x14E :: nat) \<le> length B" by (simp add: B_def)
  from checksum_rule [OF len] obtain r where
    r: "header_info B = Some r \<and> (checksum_ok r \<longleftrightarrow> S mod 256 = 0)"
    unfolding S_def ..
  then have hi: "header_info B = Some r" and iff: "checksum_ok r \<longleftrightarrow> S mod 256 = 0"
    by (rule conjunct1, rule conjunct2)
  from hi len have "checksum_ok r = checksumOk B"
    by (auto simp: header_info_def split: if_splits)
  with checksumOk_E7 have ok: "checksum_ok r" by (simp add: B_def)
  from iff ok have "S mod 256 = 0" by (rule iffD1)
  with hi ok have "\<exists>r. header_info B = Some r \<and> checksum_ok r \<and> S mod 256 = 0"
    by (intro exI [of _ r] conjI)
  with len show ?thesis unfolding S_def B_def by (rule conjI)
qed

text \<open>
  C6. The logo loop scans the 0x30 bytes of the logo field from index 0 and stops at the
  first byte that differs from the reference pattern: its value is the index \<open>k\<close> of the
  first mismatch. The tier is \<open>Full\<close> exactly when there is no mismatch, \<open>Partial\<close>
  exactly when \<open>0x18 < k < 0x30\<close>, and \<open>Fail\<close> exactly when \<open>k \<le> 0x18\<close>.
\<close>

theorem logo_tier_by_first_mismatch:
  assumes "0x14E \<le> length buf"
  shows "\<exists>r. header_info buf = Some r \<and>
           (\<forall>k. first_mismatch buf k \<longrightarrow> logo_loop buf 0 = k) \<and>
           (logo r = Full \<longleftrightarrow> (\<nexists>k. first_mismatch buf k)) \<and>
           (logo r = Partial \<longleftrightarrow> (\<exists>k. first_mismatch buf k \<and> 0x18 < k \<and> k < 0x30)) \<and>
           (logo r = Fail \<longleftrightarrow> (\<exists>k. first_mismatch buf k \<and> k \<le> 0x18))"
proof -
  from assms have "header_info buf = Some \<lparr> title = print_title buf,
                  logo = logo_check buf,
                  hardware_support = hardware_check buf,
                  checksum_ok = checksumOk buf,
                  rom_size_kb = rom_size_kb_of (buf ! HEADER_ROMSIZE),
                  boot = boot_status (willboot_of (logo_check buf) (checksumOk buf)) \<rparr>"
    (is "_ = Some ?r")
    by (simp add: header_info_def)
  moreover have "logo ?r = logo_check buf" by simp
  ultimately show ?thesis
    using logo_check_Full [of buf] logo_check_Partial [of buf] logo_check_Fail [of buf]
      logo_loop_first_mismatch [of buf]
    by (intro exI [of _ ?r]) (simp only: simp_thms, blast)
qed

theorem logo_tier_witness:
  "(0x14E :: nat) \<le> length (replicate 512 (0 :: u8)) \<and>
   (\<exists>r. header_info (replicate 512 0) = Some r \<and> first_mismatch (replicate 512 0) 0 \<and>
        logo_loop (replicate 512 0) 0 = 0 \<and> logo r = Fail)"
proof -
  let ?B = "replicate 512 (0 :: u8)"
  have len: "(0x14E :: nat) \<le> length ?B" by simp
  from logo_tier_by_first_mismatch [OF len] obtain r where
    r: "header_info ?B = Some r"
      "\<forall>k. first_mismatch ?B k \<longrightarrow> logo_loop ?B 0 = k"
      "logo r = Fail \<longleftrightarrow> (\<exists>k. first_mismatch ?B k \<and> k \<le> 0x18)"
    by blast
  from r(2) first_mismatch_zeros have "logo_loop ?B 0 = 0" by blast
  moreover from r(3) first_mismatch_zeros have "logo r = Fail" by auto
  ultimately show ?thesis using r(1) len first_mismatch_zeros by blast
qed

text \<open>
  C7. The boot verdict is \<open>NoBoot\<close> exactly when the logo tier is \<open>Fail\<close> or the checksum
  fails, \<open>CgbOnly\<close> exactly when the tier is \<open>Partial\<close> and the checksum passes, and
  \<open>Universal\<close> exactly when the tier is \<open>Full\<close> and the checksum passes.
\<close>

theorem boot_verdict_rule:
  assumes "0x14E \<le> length buf"
  shows "\<exists>r. header_info buf = Some r \<and>
           (boot r = NoBoot \<longleftrightarrow> logo r = Fail \<or> \<not> checksum_ok r) \<and>
           (boot r = CgbOnly \<longleftrightarrow> logo r = Partial \<and> checksum_ok r) \<and>
           (boot r = Universal \<longleftrightarrow> logo r = Full \<and> checksum_ok r)"
  using assms
  by (cases "logo_check buf")
     (simp_all add: header_info_def boot_status_def willboot_of_def)

theorem boot_verdict_witness:
  "(0x14E :: nat) \<le> length (replicate 512 (0 :: u8)) \<and>
   (\<exists>r. header_info (replicate 512 0) = Some r \<and> logo r = Fail \<and> boot r = NoBoot)"
proof -
  let ?B = "replicate 512 (0 :: u8)"
  have len: "(0x14E :: nat) \<le> length ?B" by simp
  from boot_verdict_rule [OF len] obtain r where
    r: "header_info ?B = Some r" "boot r = NoBoot \<longleftrightarrow> logo r = Fail \<or> \<not> checksum_ok r"
    by blast
  from r(1) have "logo r = logo_check ?B"
    by (auto simp: header_info_def split: if_splits)
  with logo_check_zeros have "logo r = Fail" by simp
  with r len show ?thesis by blast
qed

text \<open>
  C8, as stated: changing one byte strictly inside the checksummed range changes the value of
  \<open>checksum_ok\<close>. It does not when the checksum already fails: on the all-zero header the
  checksum fails, and it still fails after the byte at 0x135 is set to 1.
\<close>

theorem checksum_flip_counterexample:
  "HEADER_TITLE < (0x135 :: nat) \<and> (0x135 :: nat) < HEADER_CHKSUM \<and>
   (replicate 512 0) ! 0x135 \<noteq> (1 :: u8) \<and>
   map_option checksum_ok (header_info ((replicate 512 0)[0x135 := 1])) = Some False \<and>
   map_option checksum_ok (header_info (replicate 512 0)) = Some False"
  using checksumOk_zeros checksumOk_zeros_mutated
  by (simp add: header_info_def)

text \<open>
  C8, amended: changing one byte of the checksummed range (offsets 0x134 to 0x14D) to a
  different value changes the 8-bit checksum value; so a header whose checksum passes no
  longer passes after the change, while a header whose checksum fails may still fail.
\<close>

theorem checksum_mutation:
  assumes "0x14E \<le> length buf" and "HEADER_TITLE \<le> off" and "off \<le> HEADER_CHKSUM"
    and "v \<noteq> buf ! off"
  shows "calculated_chk (buf[off := v]) \<noteq> calculated_chk buf \<and>
         (\<exists>r r'. header_info buf = Some r \<and> header_info (buf[off := v]) = Some r' \<and>
                  (checksum_ok r \<longrightarrow> \<not> checksum_ok r'))"
proof -
  have "off < length buf" using assms(1,3) by simp
  with assms(2,3) have
    "(\<Sum>k = HEADER_TITLE..HEADER_CHKSUM. buf[off := v] ! k) =
     (\<Sum>k = HEADER_TITLE..HEADER_CHKSUM. buf ! k) - buf ! off + v"
    by (intro sum_list_update) simp_all
  then have "calculated_chk (buf[off := v]) = calculated_chk buf - buf ! off + v"
    by (simp add: calculated_chk_sum)
  with assms(4) have ne: "calculated_chk (buf[off := v]) \<noteq> calculated_chk buf"
    by simp
  then have "checksumOk buf \<longrightarrow> \<not> checksumOk (buf[off := v])"
    by (auto simp: checksumOk_def)
  with ne assms(1) show ?thesis
    by (simp add: header_info_def)
qed

theorem checksum_mutation_witness:
  "(0x14E :: nat) \<le> length ((replicate 512 0)[0x14D := 0xE7 :: u8]) \<and>
   HEADER_TITLE \<le> (0x135 :: nat) \<and> (0x135 :: nat) \<le> HEADER_CHKSUM \<and>
   (1 :: u8) \<noteq> (replicate 512 0)[0x14D := 0xE7] ! 0x135 \<and>
   calculated_chk ((replicate 512 0)[0x14D := 0xE7, 0x135 := 1]) \<noteq>
     calculated_chk ((replicate 512 0)[0x14D := 0xE7]) \<and>
   checksumOk ((replicate 512 0)[0x14D := 0xE7]) \<and>
   \<not> checksumOk ((replicate 512 0)[0x14D := 0xE7, 0x135 := 1])"
proof -
  let ?B = "(replicate 512 0)[0x14D := 0xE7 :: u8]"
  have h: "(0x14E :: nat) \<le> length ?B" "HEADER_TITLE \<le> (0x135 :: nat)"
    "(0x135 :: nat) \<le> HEADER_CHKSUM" "(1 :: u8) \<noteq> ?B ! 0x135"
    by simp_all
  from checksum_mutation [OF h] have
    ne: "calculated_chk (?B[0x135 := 1]) \<noteq> calculated_chk ?B" by blast
  have ok: "checksumOk ?B" by (rule checksumOk_E7)
  with ne have "\<not> checksumOk (?B[0x135 := 1])" by (simp add: checksumOk_def)
  with ne ok h show ?thesis by blast
qed

section \<open>The transfer engine\<close>

subsection \<open>Signed and unsigned readings of 32 bits\<close>

lemma sint_u32:
  fixes w :: u32
  shows "sint w = (if unat w < 2147483648 then int (unat w) else int (unat w) - 4294967296)"
proof -
  define n where "n = unat w"
  define k where "k = int n"
  have kw: "uint w = k" by (simp add: k_def n_def)
  have "n < 4294967296" using unsigned_less [of w] by (simp add: n_def)
  then have lt: "k < 4294967296" by (simp add: k_def)
  have ge: "0 \<le> k" by (simp add: k_def)
  have "sint w = signed_take_bit 31 k"
    by (simp add: sint_uint kw)
  also have "\<dots> = (k + 2147483648) mod 4294967296 - 2147483648"
    by (simp add: signed_take_bit_eq_take_bit_shift take_bit_eq_mod)
  also have "\<dots> = (if k < 2147483648 then k else k - 4294967296)"
  proof (cases "k < 2147483648")
    case True
    have "(k + 2147483648) mod 4294967296 = k + 2147483648"
      by (rule int_mod_pos_eq [where q = 0]) (use True ge in simp_all)
    with True show ?thesis by simp
  next
    case False
    have "(k + 2147483648) mod 4294967296 = k - 2147483648"
      by (rule int_mod_pos_eq [where q = 1]) (use False lt in simp_all)
    with False show ?thesis by simp
  qed
  finally have "sint w = (if k < 2147483648 then k else k - 4294967296)" .
  moreover have "k < 2147483648 \<longleftrightarrow> n < 2147483648" unfolding k_def by linarith
  ultimately have "sint w = (if n < 2147483648 then int n else int n - 4294967296)"
    by (simp only: k_def)
  then show ?thesis by (simp only: n_def)
qed

lemma blocksize_pos:
  fixes b :: u32
  assumes "0 <s b"
  shows "0 < unat b" and "unat b < 2147483648" and "sint b = int (unat b)"
proof -
  from assms have pos: "0 < sint b" by (simp add: word_sless_alt)
  have bound: "unat b < 4294967296" using unsigned_less [of b] by simp
  show lt: "unat b < 2147483648"
  proof (rule ccontr)
    assume "\<not> unat b < 2147483648"
    then have "sint b = int (unat b) - 4294967296" by (simp only: sint_u32 if_False)
    with pos bound show False by linarith
  qed
  then show eq: "sint b = int (unat b)" by (simp only: sint_u32 if_True)
  with pos show "0 < unat b" by linarith
qed

subsection \<open>One iteration of the read loop\<close>

lemma read_body_failed:
  assumes "\<not> transfer_ok e sp base s"
  shows "read_body e sp base b s =
     s\<lparr>ops := ops s @ [DevRead sp (offset s + base) (unat b)],
       failure := Some (if read_fails (dev e) sp (offset s + base)
                        then DeviceReadFailed else FileWriteFailed)\<rparr>"
  using assms by (auto simp: read_body_def ems_read_def transfer_ok_def Let_def)

lemma read_body_plain:
  assumes "transfer_ok e sp base s" and "\<not> narrows sp b s"
  shows "read_body e sp base b s =
     s\<lparr>ops := ops s @ [DevRead sp (offset s + base) (unat b)],
       saved := saved s @ map (\<lambda>i. mem (dev e) sp (offset s + base + word_of_nat i)) [0..<unat b],
       offset := offset s + b\<rparr>"
  using assms by (auto simp: read_body_def ems_read_def transfer_ok_def narrows_def Let_def)

lemma read_body_narrow:
  assumes "transfer_ok e sp base s" and "narrows sp b s"
    and "unat (romsize_index (offset s + b) b) < unat b"
  shows "read_body e sp base b s =
     s\<lparr>ops := ops s @ [DevRead sp (offset s + base) (unat b)],
       saved := saved s @ map (\<lambda>i. mem (dev e) sp (offset s + base + word_of_nat i)) [0..<unat b],
       offset := offset s + b,
       switched := switched s + 1,
       readuntil := narrow (size_byte e sp base b s) (readuntil s),
       untilset := True,
       examined := examined s @ [size_byte e sp base b s]\<rparr>"
  using assms
  by (simp add: read_body_def ems_read_def transfer_ok_def narrows_def size_byte_def Let_def)

lemma read_body_overrun:
  assumes "transfer_ok e sp base s" and "narrows sp b s"
    and "\<not> unat (romsize_index (offset s + b) b) < unat b"
  shows "read_body e sp base b s =
     s\<lparr>ops := ops s @ [DevRead sp (offset s + base) (unat b)],
       saved := saved s @ map (\<lambda>i. mem (dev e) sp (offset s + base + word_of_nat i)) [0..<unat b],
       offset := offset s + b,
       switched := switched s + 1,
       failure := Some BufferOverrun\<rparr>"
  using assms
  by (simp add: read_body_def ems_read_def transfer_ok_def narrows_def Let_def)

lemma limits_bound: "0 < nat (limits sp)" "nat (limits sp) \<le> 4194304"
  by (cases sp; simp)+

lemma unat_limit: "unat (word_of_int (limits sp) :: u32) = nat (limits sp)"
  by (cases sp) simp_all

lemma add_no_wrap:
  fixes x b :: u32
  assumes "unat x \<le> 4194304" and "unat b < 2147483648"
  shows "unat (x + b) = unat x + unat b"
proof -
  have "unat x + unat b < 2 ^ LENGTH(32)" using assms by simp
  then show ?thesis by (simp only: unat_add_lem)
qed

lemma narrow_bounds:
  "32768 \<le> unat (narrow c 4194304)" "unat (narrow c 4194304) \<le> 4194304"
proof -
  have "c \<le> 7 \<Longrightarrow> unat c \<in> {0, 1, 2, 3, 4, 5, 6, 7}"
    by (simp add: word_le_nat_alt) arith
  then have "c \<le> 7 \<Longrightarrow> 32768 \<le> unat (push_bit (unat c) 32 * 1024 :: u32) \<and>
      unat (push_bit (unat c) 32 * 1024 :: u32) \<le> 4194304"
    by auto
  then show "32768 \<le> unat (narrow c 4194304)" "unat (narrow c 4194304) \<le> 4194304"
    by (simp_all add: narrow_def)
qed

lemma read_body_step:
  assumes b: "0 <s b" and inv: "read_inv sp b s" and cond: "read_cond b s"
  shows "read_inv sp b (read_body e sp base b s) \<and>
         read_measure sp (read_body e sp base b s) < read_measure sp s"
proof -
  note bp = blocksize_pos [OF b]
  from inv have o_le: "unat (offset s) \<le> nat (limits sp)"
    and r_le: "unat (readuntil s) \<le> nat (limits sp)"
    and dv: "unat b dvd unat (offset s)"
    and opsb: "\<forall>x \<in> set (ops s). op_count x = unat b"
    and early: "failure s = None \<Longrightarrow> \<not> untilset s \<Longrightarrow> sp = Rom \<Longrightarrow> unat (offset s) < HEADER_ROMSIZE"
    and unset: "\<not> untilset s \<Longrightarrow> readuntil s = word_of_int (limits sp) \<and> examined s = []"
    and set: "untilset s \<Longrightarrow> sp = Rom \<and>
        (\<exists>c. examined s = [c] \<and> readuntil s = narrow c (word_of_int (limits sp)))"
    and swle: "switched s \<le> 1"
    and sw0: "failure s = None \<Longrightarrow> \<not> untilset s \<Longrightarrow> switched s = 0"
    and sw1: "untilset s \<Longrightarrow> switched s = 1"
    unfolding read_inv_def by blast+
  from cond have run: "failure s = None" and le: "offset s + b \<le> readuntil s"
    by (simp_all add: read_cond_def)
  from o_le limits_bound(2) [of sp] have o_small: "unat (offset s) \<le> 4194304" by linarith
  from o_small bp(2) have nowrap: "unat (offset s + b) = unat (offset s) + unat b"
    by (rule add_no_wrap)
  from le have le_nat: "unat (offset s) + unat b \<le> unat (readuntil s)"
    by (simp add: word_le_nat_alt nowrap)
  with r_le have o'_le: "unat (offset s + b) \<le> nat (limits sp)"
    by (simp add: nowrap)
  from dv have dv': "unat b dvd unat (offset s + b)"
    by (simp add: nowrap)
  have meas_fail: "0 < read_measure sp s"
    using run o_le limits_bound(1) [of sp] by (simp add: read_measure_def)
  have meas_step: "nat (limits sp) + 1 - unat (offset s + b) < read_measure sp s"
    using run o'_le bp(1) limits_bound(1) [of sp] by (simp add: read_measure_def nowrap)
  show ?thesis
  proof (cases "transfer_ok e sp base s")
    case False
    have st: "read_body e sp base b s =
       s\<lparr>ops := ops s @ [DevRead sp (offset s + base) (unat b)],
         failure := Some (if read_fails (dev e) sp (offset s + base)
                          then DeviceReadFailed else FileWriteFailed)\<rparr>"
      using False by (rule read_body_failed)
    have "read_inv sp b (read_body e sp base b s)"
      unfolding st using o_le r_le dv opsb unset set swle sw1 by (auto simp: read_inv_def)
    moreover have "read_measure sp (read_body e sp base b s) < read_measure sp s"
      unfolding st using meas_fail by (simp add: read_measure_def)
    ultimately show ?thesis ..
  next
    case ok: True
    show ?thesis
    proof (cases "narrows sp b s")
      case False
      have st: "read_body e sp base b s =
         s\<lparr>ops := ops s @ [DevRead sp (offset s + base) (unat b)],
           saved := saved s @ map (\<lambda>i. mem (dev e) sp (offset s + base + word_of_nat i)) [0..<unat b],
           offset := offset s + b\<rparr>"
        using ok False by (rule read_body_plain)
      have early': "\<not> untilset s \<Longrightarrow> sp = Rom \<Longrightarrow> unat (offset s + b) < HEADER_ROMSIZE"
        using False by (simp add: narrows_def word_le_nat_alt)
      have "read_inv sp b (read_body e sp base b s)"
        unfolding st using o'_le r_le dv' opsb unset set le early' run swle sw0 sw1
        by (auto simp: read_inv_def)
      moreover have "read_measure sp (read_body e sp base b s) < read_measure sp s"
        unfolding st using meas_step run by (simp add: read_measure_def)
      ultimately show ?thesis ..
    next
      case nar: True
      then have rom: "sp = Rom" and nset: "\<not> untilset s" by (simp_all add: narrows_def)
      from unset nset rom have full: "readuntil s = 4194304" and ex: "examined s = []"
        by simp_all
      from early run nset rom have o_early: "unat (offset s) < HEADER_ROMSIZE" by simp
      from sw0 run nset have sw: "switched s = 0" by simp
      show ?thesis
      proof (cases "unat (romsize_index (offset s + b) b) < unat b")
        case True
        define c where "c = size_byte e sp base b s"
        have st: "read_body e sp base b s =
           s\<lparr>ops := ops s @ [DevRead sp (offset s + base) (unat b)],
             saved := saved s @ map (\<lambda>i. mem (dev e) sp (offset s + base + word_of_nat i)) [0..<unat b],
             offset := offset s + b,
             switched := switched s + 1,
             readuntil := narrow c (readuntil s),
             untilset := True,
             examined := examined s @ [c]\<rparr>"
          unfolding c_def using ok nar True by (rule read_body_narrow)
        have r'_le: "unat (narrow c (readuntil s)) \<le> nat (limits sp)"
          using narrow_bounds(2) [of c] by (simp add: full rom)
        have bound': "offset s + b \<le> narrow c (readuntil s) \<or>
            (offset s + b = b \<and> narrow c (readuntil s) < b)"
        proof (cases "offset s = 0")
          case True
          then show ?thesis by (simp add: linorder_not_less [symmetric])
        next
          case False
          then have "unat (offset s) \<noteq> 0" by (simp add: unat_eq_0)
          with dv have "unat b \<le> unat (offset s)" by (simp add: dvd_imp_le)
          with o_early have "unat (offset s) + unat b < 32768" by simp
          with narrow_bounds(1) [of c] have "unat (offset s + b) \<le> unat (narrow c (readuntil s))"
            by (simp add: nowrap full)
          then show ?thesis by (simp add: word_le_nat_alt)
        qed
        have "read_inv sp b (read_body e sp base b s)"
          unfolding st using o'_le r'_le dv' opsb bound' rom full ex sw
          by (auto simp: read_inv_def)
        moreover have "read_measure sp (read_body e sp base b s) < read_measure sp s"
          unfolding st using meas_step run by (simp add: read_measure_def)
        ultimately show ?thesis ..
      next
        case False
        have st: "read_body e sp base b s =
           s\<lparr>ops := ops s @ [DevRead sp (offset s + base) (unat b)],
             saved := saved s @ map (\<lambda>i. mem (dev e) sp (offset s + base + word_of_nat i)) [0..<unat b],
             offset := offset s + b,
             switched := switched s + 1,
             failure := Some BufferOverrun\<rparr>"
          using ok nar False by (rule read_body_overrun)
        have "read_inv sp b (read_body e sp base b s)"
          unfolding st using o'_le r_le dv' opsb unset set sw nset
          by (auto simp: read_inv_def)
        moreover have "read_measure sp (read_body e sp base b s) < read_measure sp s"
          unfolding st using meas_fail by (simp add: read_measure_def)
        ultimately show ?thesis ..
      qed
    qed
  qed
qed

subsection \<open>The read loop ends\<close>

lemma read_loop_total:
  assumes "0 <s b" and "read_inv sp b s"
  shows "\<exists>t. read_loop e sp base b s = Some t \<and> read_inv sp b t \<and> \<not> read_cond b t"
proof -
  have step: "read_inv sp b s' \<and> read_measure sp s' < read_measure sp s0"
    if "read_inv sp b s0" and "read_cond b s0" and "s' = read_body e sp base b s0" for s0 s'
    using read_body_step [OF assms(1) that(1,2)] that(3) by simp
  have "\<exists>t. while_option (read_cond b) (read_body e sp base b) s = Some t"
    by (rule measure_while_option_Some [where P = "read_inv sp b" and f = "read_measure sp"])
       (use step assms(2) in blast)+
  then obtain t where t: "while_option (read_cond b) (read_body e sp base b) s = Some t" ..
  have "read_inv sp b t"
    by (rule while_option_rule [where P = "read_inv sp b", OF _ t assms(2)])
       (use step in blast)
  moreover from t have "\<not> read_cond b t" by (rule while_option_stop)
  ultimately show ?thesis using t by (simp add: read_loop_def)
qed

lemma read_inv_start:
  "read_inv sp b (start\<lparr>readuntil := word_of_int (limits sp), untilset := False\<rparr>)"
  by (simp add: read_inv_def start_def unat_limit)

lemma read_session_total:
  assumes "0 <s b"
  shows "\<exists>t. read_session e sp bank b = Some t \<and>
           (if save_open_fails e then t = start\<lparr>failure := Some CannotOpenFile\<rparr>
            else read_inv sp b t \<and> \<not> read_cond b t)"
proof (cases "save_open_fails e")
  case True
  then show ?thesis by (simp add: read_session_def)
next
  case False
  from read_loop_total [OF assms read_inv_start, where e = e and base = "base_of bank"] False
  show ?thesis by (simp add: read_session_def)
qed

subsection \<open>The write loop\<close>

lemma write_body_failed:
  assumes "write_fails (dev e) sp (offset s + base)"
  shows "write_body e sp base b s =
     s\<lparr>rest := drop (unat b) (rest s),
       ops := ops s @ [DevWrite sp (offset s + base) (unat b)],
       failure := Some DeviceWriteFailed\<rparr>"
  using assms by (simp add: write_body_def ems_write_def Let_def)

lemma write_body_ok:
  assumes "\<not> write_fails (dev e) sp (offset s + base)"
  shows "write_body e sp base b s =
     s\<lparr>rest := drop (unat b) (rest s),
       ops := ops s @ [DevWrite sp (offset s + base) (unat b)],
       offset := offset s + b\<rparr>"
  using assms by (simp add: write_body_def ems_write_def Let_def)

lemma write_cond_bound:
  assumes b: "0 <s b" and inv: "write_inv sp b s" and cond: "write_cond sp b s"
  shows "unat (offset s + b) = unat (offset s) + unat b"
    and "unat (offset s) + unat b \<le> nat (limits sp)"
proof -
  note bp = blocksize_pos [OF b]
  from inv have o_le: "unat (offset s) \<le> nat (limits sp)"
    and first: "offset s = 0 \<or> unat b \<le> nat (limits sp)"
    unfolding write_inv_def by blast+
  from cond have le: "sint (offset s + b) \<le> limits sp"
    by (simp add: write_cond_def)
  from o_le limits_bound(2) [of sp] have o_small: "unat (offset s) \<le> 4194304" by linarith
  from o_small bp(2) show nowrap: "unat (offset s + b) = unat (offset s) + unat b"
    by (rule add_no_wrap)
  from first show "unat (offset s) + unat b \<le> nat (limits sp)"
  proof
    assume z: "offset s = 0"
    with le have "sint b \<le> limits sp" by simp
    with bp(3) have "int (unat b) \<le> limits sp" by (simp only:)
    then have "unat b \<le> nat (limits sp)" by linarith
    with z show ?thesis by simp
  next
    assume "unat b \<le> nat (limits sp)"
    with limits_bound(2) [of sp] o_small have "unat (offset s + b) < 2147483648"
      unfolding nowrap by linarith
    then have "sint (offset s + b) = int (unat (offset s + b))"
      by (simp only: sint_u32 if_True)
    with le have "int (unat (offset s) + unat b) \<le> limits sp"
      by (simp only: nowrap)
    then show ?thesis by linarith
  qed
qed

lemma write_body_step:
  assumes b: "0 <s b" and inv: "write_inv sp b s" and cond: "write_cond sp b s"
  shows "write_inv sp b (write_body e sp base b s) \<and>
         write_measure (write_body e sp base b s) < write_measure s"
proof -
  note bp = blocksize_pos [OF b]
  note wb = write_cond_bound [OF b inv cond]
  from inv have o_le: "unat (offset s) \<le> nat (limits sp)"
    and dv: "unat b dvd unat (offset s)"
    and opsb: "\<forall>x \<in> set (ops s). op_count x = unat b \<and> is_write x"
    and first: "offset s = 0 \<or> unat b \<le> nat (limits sp)"
    and count: "failure s = None \<longrightarrow> unat (offset s) = length (ops s) * unat b"
    unfolding write_inv_def by blast+
  from cond have run: "failure s = None" and avail: "unat b \<le> length (rest s)"
    by (simp_all add: write_cond_def)
  from wb have o'_le: "unat (offset s + b) \<le> nat (limits sp)" by simp
  from dv have dv': "unat b dvd unat (offset s + b)" by (simp add: wb(1))
  from wb(2) have b_le: "unat b \<le> nat (limits sp)" by linarith
  from count run have count': "unat (offset s + b) = length (ops s @ [DevWrite sp (offset s + base) (unat b)]) * unat b"
    by (simp add: wb(1))
  show ?thesis
  proof (cases "write_fails (dev e) sp (offset s + base)")
    case True
    have st: "write_body e sp base b s =
       s\<lparr>rest := drop (unat b) (rest s),
         ops := ops s @ [DevWrite sp (offset s + base) (unat b)],
         failure := Some DeviceWriteFailed\<rparr>"
      using True by (rule write_body_failed)
    have "write_inv sp b (write_body e sp base b s)"
      unfolding st using o_le dv opsb first by (auto simp: write_inv_def)
    moreover have "write_measure (write_body e sp base b s) < write_measure s"
      unfolding st using run by (simp add: write_measure_def)
    ultimately show ?thesis ..
  next
    case False
    have st: "write_body e sp base b s =
       s\<lparr>rest := drop (unat b) (rest s),
         ops := ops s @ [DevWrite sp (offset s + base) (unat b)],
         offset := offset s + b\<rparr>"
      using False by (rule write_body_ok)
    have "write_inv sp b (write_body e sp base b s)"
      unfolding st using o'_le dv' opsb b_le count' by (auto simp: write_inv_def)
    moreover have "write_measure (write_body e sp base b s) < write_measure s"
      unfolding st using run avail bp(1) by (simp add: write_measure_def)
    ultimately show ?thesis ..
  qed
qed

lemma write_loop_total:
  assumes "0 <s b" and "write_inv sp b s"
  shows "\<exists>t. write_loop e sp base b s = Some t \<and> write_inv sp b t \<and> \<not> write_cond sp b t"
proof -
  have step: "write_inv sp b s' \<and> write_measure s' < write_measure s0"
    if "write_inv sp b s0" and "write_cond sp b s0" and "s' = write_body e sp base b s0" for s0 s'
    using write_body_step [OF assms(1) that(1,2)] that(3) by simp
  have "\<exists>t. while_option (write_cond sp b) (write_body e sp base b) s = Some t"
    by (rule measure_while_option_Some [where P = "write_inv sp b" and f = write_measure])
       (use step assms(2) in blast)+
  then obtain t where t: "while_option (write_cond sp b) (write_body e sp base b) s = Some t" ..
  have "write_inv sp b t"
    by (rule while_option_rule [where P = "write_inv sp b", OF _ t assms(2)])
       (use step in blast)
  moreover from t have "\<not> write_cond sp b t" by (rule while_option_stop)
  ultimately show ?thesis using t by (simp add: write_loop_def)
qed

lemma write_inv_start: "write_inv sp b (start\<lparr>rest := bytes\<rparr>)"
  by (simp add: write_inv_def start_def)

lemma write_inv_refused: "write_inv sp b (start\<lparr>failure := Some err\<rparr>)"
  by (simp add: write_inv_def start_def)

lemma write_session_total:
  assumes "0 <s b"
  shows "\<exists>t. write_session e sp bank b = Some t \<and> write_inv sp b t"
proof (cases "write_file e")
  case None
  then show ?thesis by (simp add: write_session_def write_inv_refused)
next
  case (Some bytes)
  from write_loop_total [OF assms write_inv_start [of sp b bytes], where e = e
      and base = "base_of bank"]
  obtain t where "write_loop e sp (base_of bank) b (start\<lparr>rest := bytes\<rparr>) = Some t"
    and "write_inv sp b t" by blast
  with Some show ?thesis
    by (simp add: write_session_def Let_def write_inv_refused)
qed

subsection \<open>Sessions on the example cartridges\<close>

lemmas read_eval =
  read_session_def read_loop_def read_cond_def read_body_def ems_read_def start_def
  romsize_index_def narrow_def Let_def

lemmas write_eval =
  write_session_def write_loop_def write_cond_def write_body_def ems_write_def start_def
  ftell_size_def Let_def

lemma read_zero_4096:
  "\<exists>t. read_session zero_env Rom 0 4096 = Some t \<and> failure t = None \<and>
        offset t = 32768 \<and> readuntil t = 32768 \<and> length (ops t) = 8 \<and> examined t = [0]"
  by (simp add: read_eval while_option_unfold zero_env_def)

lemma read_ff_bank:
  "\<exists>t. read_session ff_env Rom 0 0x400000 = Some t \<and> failure t = None \<and>
        offset t = 0x400000 \<and> readuntil t = 0x400000 \<and> length (ops t) = 1 \<and> examined t = [0xFF]"
  by (simp add: read_eval while_option_unfold zero_env_def ff_env_def)

lemma write_file_32:
  "\<exists>t. write_session file_env Rom 0 32 = Some t \<and> failure t = None \<and>
        offset t = 64 \<and> length (ops t) = 2"
  by (simp add: write_eval while_option_unfold zero_env_def file_env_def)

lemma pos_consts: "0 <s (4096 :: u32)" "0 <s (32 :: u32)" "0 <s (8 :: u32)" "0 <s (0x400000 :: u32)"
  by (simp_all add: word_sless_alt)

lemma pos_mib: "0 <s (0x100000 :: u32)"
  by (simp add: word_sless_alt)

lemma read_ff_mib:
  "\<exists>t. read_session ff_env Rom 0 0x100000 = Some t \<and> failure t = None \<and>
        offset t = 0x400000 \<and> readuntil t = 0x400000 \<and> length (ops t) = 4 \<and>
        switched t = 1 \<and> examined t = [0xFF]"
  by (simp add: read_eval while_option_unfold zero_env_def ff_env_def)

subsection \<open>The index of the size byte, the size of the input file, the file name\<close>

lemma read_body_set:
  assumes "untilset s"
  shows "readuntil (read_body e sp base b s) = readuntil s"
    and "examined (read_body e sp base b s) = examined s"
    and "switched (read_body e sp base b s) = switched s"
    and "untilset (read_body e sp base b s)"
  using assms by (simp_all add: read_body_def ems_read_def Let_def)

lemma narrow_unknown:
  assumes "rom_size_kb_of c = None"
  shows "narrow c until = until"
  using assms by (simp add: rom_size_kb_of_def narrow_def split: if_splits)

lemma narrowing_index:
  assumes b: "0 <s b" and inv: "read_inv Rom b s" and cond: "read_cond b s"
    and nar: "narrows Rom b s"
  shows "unat (romsize_index (offset s + b) b) = HEADER_ROMSIZE - unat (offset s)"
    and "0 < unat (romsize_index (offset s + b) b)"
    and "unat (romsize_index (offset s + b) b) \<le> unat b"
    and "unat (romsize_index (offset s + b) b) < unat b \<longleftrightarrow>
           unat (offset s) + unat b \<noteq> HEADER_ROMSIZE"
proof -
  note bp = blocksize_pos [OF b]
  from inv have o_le: "unat (offset s) \<le> nat (limits Rom)"
    and early: "failure s = None \<longrightarrow> \<not> untilset s \<longrightarrow> Rom = Rom \<longrightarrow> unat (offset s) < HEADER_ROMSIZE"
    unfolding read_inv_def by blast+
  from cond have run: "failure s = None" by (simp add: read_cond_def)
  from nar have nset: "\<not> untilset s" and reach: "(328 :: u32) \<le> offset s + b"
    by (simp_all add: narrows_def)
  from early run nset have lt: "unat (offset s) < HEADER_ROMSIZE" by simp
  from o_le have "unat (offset s) \<le> 4194304" by simp
  then have nowrap: "unat (offset s + b) = unat (offset s) + unat b"
    using bp(2) by (rule add_no_wrap)
  from reach have ge: "HEADER_ROMSIZE \<le> unat (offset s) + unat b"
    by (simp add: word_le_nat_alt nowrap)
  have "romsize_index (offset s + b) b = 328 - offset s"
    by (simp add: romsize_index_def)
  moreover have "offset s \<le> 328" using lt by (simp add: word_le_nat_alt)
  ultimately have "unat (romsize_index (offset s + b) b) = unat (328 :: u32) - unat (offset s)"
    by (simp only: unat_sub)
  then show idx: "unat (romsize_index (offset s + b) b) = HEADER_ROMSIZE - unat (offset s)"
    by simp
  from lt show "0 < unat (romsize_index (offset s + b) b)" unfolding idx by linarith
  from ge show "unat (romsize_index (offset s + b) b) \<le> unat b" unfolding idx by linarith
  from ge lt show "unat (romsize_index (offset s + b) b) < unat b \<longleftrightarrow>
           unat (offset s) + unat b \<noteq> HEADER_ROMSIZE" unfolding idx by linarith
qed

lemma ftell_size_small:
  assumes "length bytes < 2147483648"
  shows "ftell_size bytes = int (length bytes)"
proof -
  have "unat (word_of_nat (length bytes) :: u32) = length bytes"
    using assms by (simp add: unat_of_nat)
  with assms show ?thesis by (simp only: ftell_size_def sint_u32 if_True)
qed

lemma preflight_small:
  assumes "write_file e = Some bytes" and "write_seekable e" and "length bytes < 2147483648"
  shows "write_session e sp bank b =
     (if (4 * 1024 * 1024 < length bytes \<and> sp = Rom) \<or> (128 * 1024 < length bytes \<and> sp = Sram)
      then Some (start\<lparr>failure := Some FileTooLarge\<rparr>)
      else write_loop e sp (base_of bank) b (start\<lparr>rest := bytes\<rparr>))"
  using assms by (cases sp) (simp_all add: write_session_def ftell_size_small)

lemma preflight_pipe:
  assumes "write_file e = Some bytes" and "\<not> write_seekable e"
  shows "write_session e sp bank b =
     write_loop e sp (base_of bank) b (start\<lparr>rest := bytes\<rparr>)"
  using assms by (simp add: write_session_def)

lemma refused_no_write:
  "exit_code (start\<lparr>failure := Some FileTooLarge\<rparr>) = 1"
  "ops (start\<lparr>failure := Some FileTooLarge\<rparr>) = []"
  by (simp_all add: exit_code_def start_def)

lemma resolve_space_forced: "resolve_space (Some sp) file = Inr (Some sp)"
  by (simp add: resolve_space_def)

lemma resolve_space_auto:
  "resolve_space None (Some name) = map_sum id Some (detect_space name)"
  by (simp add: resolve_space_def split: sum.split)

lemma ftell_size_huge: "ftell_size (replicate 2147483648 0) = - 2147483648"
  by (simp add: ftell_size_def)

lemma huge_step:
  assumes "huge_inv s" and "write_cond Rom 32 s"
  shows "huge_inv (write_body huge_env Rom base 32 s)"
proof -
  from assms(1) have inv: "write_inv Rom 32 s" and run: "failure s = None"
    and len: "length (rest s) + unat (offset s) = 2147483648"
    by (simp_all add: huge_inv_def)
  from write_cond_bound [OF pos_consts(2) inv assms(2)]
  have nowrap: "unat (offset s + 32) = unat (offset s) + 32" by simp
  from assms(2) have avail: "32 \<le> length (rest s)" by (simp add: write_cond_def)
  have st: "write_body huge_env Rom base 32 s =
       s\<lparr>rest := drop 32 (rest s),
         ops := ops s @ [DevWrite Rom (offset s + base) 32],
         offset := offset s + 32\<rparr>"
    using write_body_ok [of huge_env Rom s base 32] by (simp add: huge_env_def zero_env_def)
  from write_body_step [OF pos_consts(2) inv assms(2), of huge_env base]
  have "write_inv Rom 32 (write_body huge_env Rom base 32 s)" by simp
  moreover have "failure (write_body huge_env Rom base 32 s) = None"
    unfolding st using run by simp
  moreover have "length (rest (write_body huge_env Rom base 32 s)) +
      unat (offset (write_body huge_env Rom base 32 s)) = 2147483648"
    unfolding st using len avail by (simp add: nowrap)
  ultimately show ?thesis by (simp add: huge_inv_def)
qed

lemma unat_namelen_sub:
  assumes "k \<le> n" and "n < 2 ^ 64"
  shows "unat ((word_of_nat n :: size_t) - word_of_nat k) = n - k"
proof -
  have n: "unat (word_of_nat n :: size_t) = n"
    using assms(2) by (simp add: unat_of_nat)
  have k: "unat (word_of_nat k :: size_t) = k"
    using assms by (simp add: unat_of_nat)
  have "(word_of_nat k :: size_t) \<le> word_of_nat n"
    using assms(1) by (simp add: word_le_nat_alt n k)
  then have "unat ((word_of_nat n :: size_t) - word_of_nat k) =
      unat (word_of_nat n :: size_t) - unat (word_of_nat k :: size_t)"
    by (rule unat_sub)
  then show ?thesis by (simp only: n k)
qed

lemma string_at_inside:
  assumes "0 < k" and "k \<le> length file" and "length file < 2 ^ 64"
  shows "string_at file (word_of_nat (length file) - word_of_nat k) = Some (file ! (length file - k))"
proof -
  have "unat ((word_of_nat (length file) :: size_t) - word_of_nat k) = length file - k"
    using assms(2,3) by (rule unat_namelen_sub)
  moreover have "length file - k < length file"
    using assms(1,2) by arith
  ultimately show ?thesis by (simp add: string_at_def)
qed

lemma c_tolower_dot: "c_tolower c = CHR ''.'' \<longleftrightarrow> c = CHR ''.''"
proof (cases "(0x41 :: nat) \<le> of_char c \<and> of_char c \<le> (0x5A :: nat)")
  case True
  then have "of_char (c_tolower c) = (of_char c + 0x20 :: nat)"
    by (simp add: c_tolower_def)
  with True have "(of_char (c_tolower c) :: nat) \<noteq> of_char (CHR ''.'')" by simp
  then have "c_tolower c \<noteq> CHR ''.''" by metis
  moreover from True have "c \<noteq> CHR ''.''" by auto
  ultimately show ?thesis by simp
next
  case False
  then have "c_tolower c = c" by (auto simp: c_tolower_def)
  then show ?thesis by simp
qed

lemma length4E:
  assumes "length xs = 4"
  obtains a b c d where "xs = [a, b, c, d]"
proof -
  from assms have "length xs = Suc (Suc (Suc (Suc 0)))" by simp
  then obtain a b c d where "xs = [a, b, c, d]"
    by (auto simp: length_Suc_conv)
  then show ?thesis by (rule that)
qed

lemma last4E:
  assumes "4 \<le> length file"
  obtains pre a b c d where "file = pre @ [a, b, c, d]"
proof -
  have "length (drop (length file - 4) file) = 4" using assms by simp
  then obtain a b c d where "drop (length file - 4) file = [a, b, c, d]"
    by (rule length4E)
  then have "file = take (length file - 4) file @ [a, b, c, d]"
    by (metis append_take_drop_id)
  then show ?thesis by (rule that)
qed

lemma c_tolower_eval:
  "c_tolower CHR ''S'' = CHR ''s''" "c_tolower CHR ''A'' = CHR ''a''"
  "c_tolower CHR ''V'' = CHR ''v''" "c_tolower CHR ''g'' = CHR ''g''"
  "c_tolower CHR ''b'' = CHR ''b''" "c_tolower CHR ''.'' = CHR ''.''"
  by code_simp+

lemma detect_space_long:
  assumes "4 \<le> length file" and "length file < 2 ^ 64"
  shows "detect_space file =
     Inr (if map c_tolower (drop (length file - 4) file) = ''.sav'' then Sram else Rom)"
proof -
  have at: "string_at file (word_of_nat (length file) - 4) = Some (file ! (length file - 4))"
    "string_at file (word_of_nat (length file) - 3) = Some (file ! (length file - 3))"
    "string_at file (word_of_nat (length file) - 2) = Some (file ! (length file - 2))"
    "string_at file (word_of_nat (length file) - 1) = Some (file ! (length file - 1))"
    using string_at_inside [of 4 "file"] string_at_inside [of 3 "file"]
      string_at_inside [of 2 "file"] string_at_inside [of 1 "file"] assms
    by simp_all
  from assms(1) obtain pre a b c d where decomp: "file = pre @ [a, b, c, d]"
    by (rule last4E)
  have nths: "file ! (length file - 4) = a" "file ! (length file - 3) = b"
    "file ! (length file - 2) = c" "file ! (length file - 1) = d"
    by (simp_all add: decomp nth_append)
  have last4: "drop (length file - 4) file = [a, b, c, d]"
    by (simp add: decomp)
  show ?thesis
    unfolding detect_space_def Let_def at nths last4
    by (simp add: c_tolower_dot)
qed

lemma detect_space_short:
  assumes "length file < 4"
  shows "detect_space file = Inl BufferOverrun"
    and "length file < unat ((word_of_nat (length file) :: size_t) - 4)"
proof -
  have "unat (word_of_nat (length file) :: size_t) = length file"
    using assms by (simp add: unat_of_nat)
  then have "unat ((word_of_nat (length file) :: size_t) - 4) = length file + 2 ^ 64 - 4"
    using assms by (simp add: unat_sub_if_size word_size)
  then have "length file < unat ((word_of_nat (length file) :: size_t) - 4)"
    by simp
  then show "length file < unat ((word_of_nat (length file) :: size_t) - 4)" .
  then show "detect_space file = Inl BufferOverrun"
    by (simp add: detect_space_def string_at_def)
qed

subsection \<open>The claims about the transfer engine\<close>

text \<open>
  C1. In a ROM read the narrowing step fetches the size byte from the block just read, at
  the index \<open>0x148 - (offset - b)\<close>, which the claim places within \<open>[0, b)\<close>. The step
  runs as soon as the offset after the increment is at least 0x148 (\<open>narrowing_index\<close>: the
  index is then between 1 and \<open>b\<close>, and equal to \<open>b\<close> exactly when that offset is 0x148).
  With a block size of 8 the step runs at offset 328 = 0x148 with index 8, one past the
  8 bytes of the block.
\<close>

theorem romsize_index_overrun:
  "map_option failure (read_session zero_env Rom 0 8) = Some (Some BufferOverrun) \<and>
   map_option offset (read_session zero_env Rom 0 8) = Some 328 \<and>
   unat (romsize_index 328 8) = 8"
  by (simp add: read_eval while_option_unfold zero_env_def)

text \<open>
  C2, as stated: at the end of every completed transfer the offset is at most the upper
  bound. A ROM read with a block size of 64 KiB on a cartridge that declares 32 KiB completes
  at offset 65536, above its narrowed bound of 32768.
\<close>

theorem upper_bound_overshoot:
  "map_option failure (read_session zero_env Rom 0 0x10000) = Some None \<and>
   map_option offset (read_session zero_env Rom 0 0x10000) = Some 0x10000 \<and>
   map_option readuntil (read_session zero_env Rom 0 0x10000) = Some 0x8000 \<and>
   \<not> (0x10000 :: u32) \<le> 0x8000"
  by (simp add: read_eval while_option_unfold zero_env_def)

text \<open>
  C2, amended: for every positive block size, a read and a write session end; every device
  call they issue has the block size as its count; and when the session completes, the
  final offset is a multiple of the block size, at most the nominal limit of the space, and
  at most the upper bound of the session -- except in a ROM read whose block size exceeds
  the narrowed bound, where the final offset is one block.
\<close>

theorem transfer_invariant:
  assumes "0 <s b"
  shows "(\<exists>t. read_session e sp bank b = Some t \<and>
            (\<forall>x \<in> set (ops t). op_count x = unat b) \<and>
            (failure t = None \<longrightarrow>
               unat b dvd unat (offset t) \<and> uint (offset t) \<le> limits sp \<and>
               (offset t \<le> readuntil t \<or> (sp = Rom \<and> offset t = b \<and> readuntil t < b)))) \<and>
         (\<exists>t. write_session e sp bank b = Some t \<and>
            (\<forall>x \<in> set (ops t). op_count x = unat b) \<and>
            (failure t = None \<longrightarrow>
               unat b dvd unat (offset t) \<and> uint (offset t) \<le> limits sp))"
proof
  from read_session_total [OF assms, of e sp bank] obtain t where
    t: "read_session e sp bank b = Some t"
    and c: "if save_open_fails e then t = start\<lparr>failure := Some CannotOpenFile\<rparr>
            else read_inv sp b t \<and> \<not> read_cond b t"
    by blast
  show "\<exists>t. read_session e sp bank b = Some t \<and>
            (\<forall>x \<in> set (ops t). op_count x = unat b) \<and>
            (failure t = None \<longrightarrow>
               unat b dvd unat (offset t) \<and> uint (offset t) \<le> limits sp \<and>
               (offset t \<le> readuntil t \<or> (sp = Rom \<and> offset t = b \<and> readuntil t < b)))"
  proof (cases "save_open_fails e")
    case True
    with c have "t = start\<lparr>failure := Some CannotOpenFile\<rparr>" by simp
    then have "ops t = []" "failure t \<noteq> None" by (simp_all add: start_def)
    with t show ?thesis by auto
  next
    case False
    with c have inv: "read_inv sp b t" by simp
    then have o_le: "unat (offset t) \<le> nat (limits sp)"
      and dv: "unat b dvd unat (offset t)"
      and opsb: "\<forall>x \<in> set (ops t). op_count x = unat b"
      and bound: "failure t = None \<longrightarrow>
        offset t \<le> readuntil t \<or> (sp = Rom \<and> offset t = b \<and> readuntil t < b)"
      unfolding read_inv_def by blast+
    from o_le have "uint (offset t) \<le> limits sp" using limits_bound(1) [of sp]
      unfolding uint_nat by linarith
    with t dv opsb bound show ?thesis by (intro exI [of _ t]) simp
  qed
next
  from write_session_total [OF assms, of e sp bank] obtain t where
    t: "write_session e sp bank b = Some t" and inv: "write_inv sp b t"
    by blast
  from inv have o_le: "unat (offset t) \<le> nat (limits sp)"
    and dv: "unat b dvd unat (offset t)"
    and opsb: "\<forall>x \<in> set (ops t). op_count x = unat b \<and> is_write x"
    unfolding write_inv_def by blast+
  from o_le have "uint (offset t) \<le> limits sp" using limits_bound(1) [of sp]
    unfolding uint_nat by linarith
  with t dv opsb show "\<exists>t. write_session e sp bank b = Some t \<and>
            (\<forall>x \<in> set (ops t). op_count x = unat b) \<and>
            (failure t = None \<longrightarrow>
               unat b dvd unat (offset t) \<and> uint (offset t) \<le> limits sp)"
    by (intro exI [of _ t]) simp
qed

theorem transfer_invariant_witness:
  "0 <s (4096 :: u32) \<and> 0 <s (32 :: u32) \<and>
   (\<exists>t. read_session zero_env Rom 0 4096 = Some t \<and> failure t = None \<and> ops t \<noteq> [] \<and>
        (\<forall>x \<in> set (ops t). op_count x = 4096) \<and>
        (4096 :: nat) dvd unat (offset t) \<and> offset t \<le> readuntil t) \<and>
   (\<exists>t. write_session file_env Rom 0 32 = Some t \<and> failure t = None \<and> ops t \<noteq> [] \<and>
        (\<forall>x \<in> set (ops t). op_count x = 32) \<and>
        (32 :: nat) dvd unat (offset t) \<and> uint (offset t) \<le> limits Rom)"
proof -
  from read_zero_4096 obtain r where
    r: "read_session zero_env Rom 0 4096 = Some r" "failure r = None" "length (ops r) = 8"
      "offset r = 32768" "readuntil r = 32768"
    by blast
  from write_file_32 obtain w where
    w: "write_session file_env Rom 0 32 = Some w" "failure w = None" "length (ops w) = 2"
    by blast
  from transfer_invariant [OF pos_consts(1), of zero_env Rom 0] r
  have "(\<forall>x \<in> set (ops r). op_count x = 4096) \<and> (4096 :: nat) dvd unat (offset r)"
    by simp
  moreover from transfer_invariant [OF pos_consts(2), of file_env Rom 0] w
  have "(\<forall>x \<in> set (ops w). op_count x = 32) \<and> (32 :: nat) dvd unat (offset w) \<and>
      uint (offset w) \<le> limits Rom"
    by simp
  moreover from r(3) w(3) have "ops r \<noteq> []" "ops w \<noteq> []" by auto
  ultimately show ?thesis using r w pos_consts by simp
qed

text \<open>
  C3. A ROM read with a block size of 4096, on a cartridge whose byte at offset 0x148 of the
  bank is 0x00 and whose transfers succeed: the first block narrows the bound to 32 * 1024,
  and the session completes after 8 device reads of 4096 bytes at offset 32768, where
  \<open>offset + 4096\<close> exceeds the bound.
\<close>

theorem rom_read_32k:
  assumes "\<not> save_open_fails e"
    and "\<forall>a. \<not> read_fails (dev e) Rom a"
    and "\<forall>off. \<not> fwrite_fails e off"
    and "mem (dev e) Rom (base_of bank + 0x148) = 0"
  shows "readuntil (read_body e Rom (base_of bank) 4096
           (start\<lparr>readuntil := word_of_int (limits Rom), untilset := False\<rparr>)) = 32 * 1024 \<and>
         (\<exists>t. read_session e Rom bank 4096 = Some t \<and> failure t = None \<and>
              offset t = 32768 \<and> readuntil t = 32 * 1024 \<and> length (ops t) = 8 \<and>
              (\<forall>x \<in> set (ops t). op_count x = 4096) \<and>
              readuntil t < offset t + 4096)"
  using assms by (simp add: read_eval while_option_unfold)

theorem rom_read_32k_witness:
  "\<not> save_open_fails zero_env \<and> (\<forall>a. \<not> read_fails (dev zero_env) Rom a) \<and>
   (\<forall>off. \<not> fwrite_fails zero_env off) \<and> mem (dev zero_env) Rom (base_of 1 + 0x148) = 0 \<and>
   (\<exists>t. read_session zero_env Rom 1 4096 = Some t \<and> failure t = None \<and>
        offset t = 32768 \<and> readuntil t = 32768 \<and> length (ops t) = 8)"
proof -
  have h: "\<not> save_open_fails zero_env" "\<forall>a. \<not> read_fails (dev zero_env) Rom a"
    "\<forall>off. \<not> fwrite_fails zero_env off" "mem (dev zero_env) Rom (base_of 1 + 0x148) = 0"
    by (simp_all add: zero_env_def)
  from rom_read_32k [OF h] obtain t where
    "read_session zero_env Rom 1 4096 = Some t" "failure t = None"
    "offset t = 32768" "readuntil t = 32768" "length (ops t) = 8"
    by auto
  with h show ?thesis by (intro conjI exI [of _ t]) simp_all
qed

text \<open>
  C4. In a ROM read the narrowing step runs at most once. An iteration that enters the
  switch (its transfers succeed, the guard holds, the index is inside the block) sets
  \<open>untilset\<close>, whatever the size code, and replaces the bound by the decoded size or leaves
  it for an unknown code. An iteration that starts with \<open>untilset\<close> set does not enter the
  switch: it leaves \<open>readuntil\<close>, \<open>untilset\<close>, the count of entries and the list of size
  bytes read as they are. Every session enters the switch at most once and reads at most one
  size byte, and its final bound is the bank size when none was read or the one read is not
  a known code.
\<close>

theorem narrowing_once:
  assumes "0 <s b"
  shows "(\<forall>s. transfer_ok e Rom (base_of bank) s \<and> narrows Rom b s \<and>
              unat (romsize_index (offset s + b) b) < unat b \<longrightarrow>
            untilset (read_body e Rom (base_of bank) b s) \<and>
            switched (read_body e Rom (base_of bank) b s) = switched s + 1 \<and>
            examined (read_body e Rom (base_of bank) b s) =
              examined s @ [size_byte e Rom (base_of bank) b s] \<and>
            readuntil (read_body e Rom (base_of bank) b s) =
              narrow (size_byte e Rom (base_of bank) b s) (readuntil s)) \<and>
         (\<forall>s. untilset s \<longrightarrow>
            readuntil (read_body e Rom (base_of bank) b s) = readuntil s \<and>
            examined (read_body e Rom (base_of bank) b s) = examined s \<and>
            switched (read_body e Rom (base_of bank) b s) = switched s \<and>
            untilset (read_body e Rom (base_of bank) b s)) \<and>
         (\<exists>t. read_session e Rom bank b = Some t \<and>
            switched t \<le> 1 \<and> length (examined t) \<le> 1 \<and>
            (untilset t \<longrightarrow> switched t = 1 \<and> length (examined t) = 1) \<and>
            (\<not> save_open_fails e \<longrightarrow>
               readuntil t = (case examined t of [] \<Rightarrow> 0x400000 | c # cs \<Rightarrow> narrow c 0x400000)) \<and>
            (\<forall>c. examined t = [c] \<and> rom_size_kb_of c = None \<longrightarrow> readuntil t = 0x400000))"
proof (intro conjI)
  show "\<forall>s. transfer_ok e Rom (base_of bank) s \<and> narrows Rom b s \<and>
              unat (romsize_index (offset s + b) b) < unat b \<longrightarrow>
            untilset (read_body e Rom (base_of bank) b s) \<and>
            switched (read_body e Rom (base_of bank) b s) = switched s + 1 \<and>
            examined (read_body e Rom (base_of bank) b s) =
              examined s @ [size_byte e Rom (base_of bank) b s] \<and>
            readuntil (read_body e Rom (base_of bank) b s) =
              narrow (size_byte e Rom (base_of bank) b s) (readuntil s)"
  proof (intro allI impI)
    fix s
    assume a: "transfer_ok e Rom (base_of bank) s \<and> narrows Rom b s \<and>
              unat (romsize_index (offset s + b) b) < unat b"
    then have "read_body e Rom (base_of bank) b s =
       s\<lparr>ops := ops s @ [DevRead Rom (offset s + base_of bank) (unat b)],
         saved := saved s @
           map (\<lambda>i. mem (dev e) Rom (offset s + base_of bank + word_of_nat i)) [0..<unat b],
         offset := offset s + b,
         switched := switched s + 1,
         readuntil := narrow (size_byte e Rom (base_of bank) b s) (readuntil s),
         untilset := True,
         examined := examined s @ [size_byte e Rom (base_of bank) b s]\<rparr>"
      by (intro read_body_narrow) simp_all
    then show "untilset (read_body e Rom (base_of bank) b s) \<and>
            switched (read_body e Rom (base_of bank) b s) = switched s + 1 \<and>
            examined (read_body e Rom (base_of bank) b s) =
              examined s @ [size_byte e Rom (base_of bank) b s] \<and>
            readuntil (read_body e Rom (base_of bank) b s) =
              narrow (size_byte e Rom (base_of bank) b s) (readuntil s)"
      by simp
  qed
next
  show "\<forall>s. untilset s \<longrightarrow>
            readuntil (read_body e Rom (base_of bank) b s) = readuntil s \<and>
            examined (read_body e Rom (base_of bank) b s) = examined s \<and>
            switched (read_body e Rom (base_of bank) b s) = switched s \<and>
            untilset (read_body e Rom (base_of bank) b s)"
    by (simp add: read_body_set)
next
  from read_session_total [OF assms, of e Rom bank] obtain t where
    t: "read_session e Rom bank b = Some t"
    and c: "if save_open_fails e then t = start\<lparr>failure := Some CannotOpenFile\<rparr>
            else read_inv Rom b t \<and> \<not> read_cond b t"
    by blast
  have main: "switched t \<le> 1 \<and> length (examined t) \<le> 1 \<and>
      (untilset t \<longrightarrow> switched t = 1 \<and> length (examined t) = 1) \<and>
      (\<not> save_open_fails e \<longrightarrow>
         readuntil t = (case examined t of [] \<Rightarrow> 0x400000 | c # cs \<Rightarrow> narrow c 0x400000))"
  proof (cases "save_open_fails e")
    case True
    with c have "t = start\<lparr>failure := Some CannotOpenFile\<rparr>" by simp
    then have "examined t = []" "switched t = 0" "\<not> untilset t" by (simp_all add: start_def)
    with True show ?thesis by simp
  next
    case False
    with c have inv: "read_inv Rom b t" by simp
    then have unset: "\<not> untilset t \<longrightarrow> readuntil t = word_of_int (limits Rom) \<and> examined t = []"
      and set: "untilset t \<longrightarrow>
        (\<exists>c. examined t = [c] \<and> readuntil t = narrow c (word_of_int (limits Rom)))"
      and swle: "switched t \<le> 1"
      and sw1: "untilset t \<longrightarrow> switched t = 1"
      unfolding read_inv_def by blast+
    show ?thesis
    proof (cases "untilset t")
      case True
      with set obtain c where "examined t = [c]" "readuntil t = narrow c (word_of_int (limits Rom))"
        by blast
      with swle sw1 True show ?thesis by simp
    next
      case False
      with unset swle show ?thesis by simp
    qed
  qed
  moreover have "\<forall>c. examined t = [c] \<and> rom_size_kb_of c = None \<longrightarrow> readuntil t = 0x400000"
  proof (intro allI impI)
    fix c assume a: "examined t = [c] \<and> rom_size_kb_of c = None"
    then have ne: "examined t \<noteq> []" by simp
    have "\<not> save_open_fails e"
    proof
      assume "save_open_fails e"
      with c have "t = start\<lparr>failure := Some CannotOpenFile\<rparr>" by simp
      then have "examined t = []" by (simp add: start_def)
      with ne show False by simp
    qed
    with main a have "readuntil t = narrow c 0x400000" by simp
    with a show "readuntil t = 0x400000" by (simp add: narrow_unknown)
  qed
  ultimately show "\<exists>t. read_session e Rom bank b = Some t \<and>
            switched t \<le> 1 \<and> length (examined t) \<le> 1 \<and>
            (untilset t \<longrightarrow> switched t = 1 \<and> length (examined t) = 1) \<and>
            (\<not> save_open_fails e \<longrightarrow>
               readuntil t = (case examined t of [] \<Rightarrow> 0x400000 | c # cs \<Rightarrow> narrow c 0x400000)) \<and>
            (\<forall>c. examined t = [c] \<and> rom_size_kb_of c = None \<longrightarrow> readuntil t = 0x400000)"
    using t by (intro exI [of _ t]) simp
qed

theorem narrowing_once_witness:
  "0 <s (0x100000 :: u32) \<and> \<not> save_open_fails ff_env \<and>
   transfer_ok ff_env Rom (base_of 0) (start\<lparr>readuntil := 0x400000\<rparr>) \<and>
   narrows Rom 0x100000 (start\<lparr>readuntil := 0x400000\<rparr>) \<and>
   unat (romsize_index (offset (start\<lparr>readuntil := 0x400000\<rparr>) + 0x100000) 0x100000)
     < unat (0x100000 :: u32) \<and>
   untilset (read_body ff_env Rom (base_of 0) 0x100000 (start\<lparr>readuntil := 0x400000\<rparr>)) \<and>
   switched (read_body ff_env Rom (base_of 0) 0x100000 (start\<lparr>readuntil := 0x400000\<rparr>)) = 1 \<and>
   readuntil (read_body ff_env Rom (base_of 0) 0x100000 (start\<lparr>readuntil := 0x400000\<rparr>))
     = 0x400000 \<and>
   switched (read_body ff_env Rom (base_of 0) 0x100000
      (read_body ff_env Rom (base_of 0) 0x100000 (start\<lparr>readuntil := 0x400000\<rparr>))) = 1 \<and>
   readuntil (read_body ff_env Rom (base_of 0) 0x100000
      (read_body ff_env Rom (base_of 0) 0x100000 (start\<lparr>readuntil := 0x400000\<rparr>))) = 0x400000 \<and>
   (\<exists>t. read_session ff_env Rom 0 0x100000 = Some t \<and> failure t = None \<and>
        length (ops t) = 4 \<and> switched t = 1 \<and> examined t = [0xFF] \<and>
        rom_size_kb_of 0xFF = None \<and> readuntil t = 0x400000)"
proof -
  define s0 where "s0 = start\<lparr>readuntil := 0x400000\<rparr>"
  define s1 where "s1 = read_body ff_env Rom (base_of 0) 0x100000 s0"
  define s2 where "s2 = read_body ff_env Rom (base_of 0) 0x100000 s1"
  have o: "\<not> save_open_fails ff_env" by (simp add: ff_env_def zero_env_def)
  have k: "rom_size_kb_of 0xFF = None" by (simp add: rom_size_kb_of_def)
  have g: "transfer_ok ff_env Rom (base_of 0) s0" "narrows Rom 0x100000 s0"
    "unat (romsize_index (offset s0 + 0x100000) 0x100000) < unat (0x100000 :: u32)"
    by (simp_all add: s0_def start_def transfer_ok_def narrows_def romsize_index_def
        ff_env_def zero_env_def)
  have byte: "size_byte ff_env Rom (base_of 0) 0x100000 s0 = 0xFF"
    by (simp add: size_byte_def ff_env_def zero_env_def)
  have init: "switched s0 = 0" "readuntil s0 = 0x400000"
    by (simp_all add: s0_def start_def)
  note inst = narrowing_once [OF pos_mib, of ff_env 0]
  from inst have enter: "transfer_ok ff_env Rom (base_of 0) s0 \<and> narrows Rom 0x100000 s0 \<and>
        unat (romsize_index (offset s0 + 0x100000) 0x100000) < unat (0x100000 :: u32) \<longrightarrow>
      untilset s1 \<and> switched s1 = switched s0 + 1 \<and>
      readuntil s1 = narrow (size_byte ff_env Rom (base_of 0) 0x100000 s0) (readuntil s0)"
    unfolding s1_def by blast
  with g have first: "untilset s1" "switched s1 = switched s0 + 1"
    "readuntil s1 = narrow (size_byte ff_env Rom (base_of 0) 0x100000 s0) (readuntil s0)"
    by simp_all
  from first(2) init have sw1: "switched s1 = 1" by simp
  from first(3) init byte k have r1: "readuntil s1 = 0x400000" by (simp add: narrow_unknown)
  from inst have keep: "untilset s1 \<longrightarrow> readuntil s2 = readuntil s1 \<and> switched s2 = switched s1"
    unfolding s2_def by blast
  with first(1) sw1 r1 have second: "switched s2 = 1" "readuntil s2 = 0x400000" by simp_all
  from read_ff_mib obtain r where
    r: "read_session ff_env Rom 0 0x100000 = Some r" "failure r = None" "length (ops r) = 4"
      "switched r = 1" "examined r = [0xFF]"
    by blast
  from inst have fin: "\<exists>t. read_session ff_env Rom 0 0x100000 = Some t \<and>
      (\<forall>c. examined t = [c] \<and> rom_size_kb_of c = None \<longrightarrow> readuntil t = 0x400000)"
    by blast
  with r k have "readuntil r = 0x400000" by auto
  with r k have last: "\<exists>t. read_session ff_env Rom 0 0x100000 = Some t \<and> failure t = None \<and>
        length (ops t) = 4 \<and> switched t = 1 \<and> examined t = [0xFF] \<and>
        rom_size_kb_of 0xFF = None \<and> readuntil t = 0x400000"
    by (intro exI [of _ r]) simp
  from pos_mib o g first(1) sw1 r1 second last show ?thesis
    unfolding s2_def s1_def s0_def by (intro conjI)
qed

text \<open>
  C9. A write is refused before any device write when the input file exceeds 4 MiB for ROM
  or 128 KiB for SRAM. The size is kept in an \<open>int\<close>: for a file that can seek and is
  shorter than 2 GiB the check is as the claim says (\<open>preflight_small\<close>); a file of 2 GiB
  has the size -2147483648, passes the check, and its first 4 MiB are written to the ROM in
  131072 blocks of 32 bytes. A file that cannot seek has the size -1 and is never refused
  (\<open>preflight_pipe\<close>).
\<close>

theorem preflight_wraps:
  "ftell_size (replicate 2147483648 0) = - 2147483648 \<and>
   (\<exists>t. write_session huge_env Rom 0 32 = Some t \<and> failure t = None \<and>
        unat (offset t) = 4 * 1024 * 1024 \<and> length (ops t) = 131072 \<and>
        list_all (\<lambda>x. is_write x \<and> op_count x = 32) (ops t))"
proof -
  let ?s0 = "start\<lparr>rest := replicate 2147483648 0\<rparr>"
  have sess: "write_session huge_env Rom 0 32 = write_loop huge_env Rom (base_of 0) 32 ?s0"
    by (simp add: write_session_def huge_env_def zero_env_def ftell_size_huge)
  have init: "huge_inv ?s0"
    by (simp add: huge_inv_def write_inv_start) (simp add: start_def)
  from write_loop_total [OF pos_consts(2) write_inv_start [of Rom 32 "replicate 2147483648 0"],
      of huge_env "base_of 0"]
  obtain t where t: "write_loop huge_env Rom (base_of 0) 32 ?s0 = Some t"
    and stop: "\<not> write_cond Rom 32 t"
    by blast
  from t have w: "while_option (write_cond Rom 32) (write_body huge_env Rom (base_of 0) 32) ?s0 = Some t"
    by (simp add: write_loop_def)
  have "huge_inv t"
    by (rule while_option_rule [where P = huge_inv, OF _ w init]) (rule huge_step)
  then have inv: "write_inv Rom 32 t" and run: "failure t = None"
    and len: "length (rest t) + unat (offset t) = 2147483648"
    by (simp_all add: huge_inv_def)
  from inv have o_le: "unat (offset t) \<le> 4194304"
    and dv: "32 dvd unat (offset t)"
    and opsb: "\<forall>x \<in> set (ops t). op_count x = unat (32 :: u32) \<and> is_write x"
    and count: "failure t = None \<longrightarrow> unat (offset t) = length (ops t) * unat (32 :: u32)"
    unfolding write_inv_def by simp_all
  from o_le have nowrap: "unat (offset t + 32) = unat (offset t) + 32"
    using add_no_wrap [of "offset t" 32] by simp
  with o_le have "unat (offset t + 32) < 2147483648" by simp
  then have sint: "sint (offset t + 32) = int (unat (offset t) + 32)"
    by (simp only: sint_u32 if_True nowrap)
  from len o_le have "32 \<le> length (rest t)" by linarith
  with stop run have "\<not> sint (offset t + 32) \<le> 4194304"
    by (simp add: write_cond_def)
  with sint have "4194304 < unat (offset t) + 32" by linarith
  with o_le dv have off: "unat (offset t) = 4194304" by presburger
  with count run have "length (ops t) * 32 = 4194304" by simp
  then have n: "length (ops t) = 131072" by simp
  from opsb have "list_all (\<lambda>x. is_write x \<and> op_count x = 32) (ops t)"
    by (simp add: list_all_iff)
  with sess t run off n have "\<exists>t. write_session huge_env Rom 0 32 = Some t \<and> failure t = None \<and>
        unat (offset t) = 4 * 1024 * 1024 \<and> length (ops t) = 131072 \<and>
        list_all (\<lambda>x. is_write x \<and> op_count x = 32) (ops t)"
    by (intro exI [of _ t]) simp
  with ftell_size_huge show ?thesis by (rule conjI)
qed

text \<open>
  C10. The autodetection reads the file name at the index \<open>length - 4\<close>, computed in
  \<open>size_t\<close>: for a name shorter than 4 characters the index wraps around and the read is
  outside the string; for a longer name the space is SRAM exactly when the last four
  characters, in lower case, are \<open>.sav\<close>, and ROM otherwise.
\<close>

theorem detect_space_rule:
  "(length file < 4 \<longrightarrow>
      detect_space file = Inl BufferOverrun \<and>
      length file < unat ((word_of_nat (length file) :: size_t) - 4)) \<and>
   (4 \<le> length file \<and> length file < 2 ^ 64 \<longrightarrow>
      detect_space file =
        Inr (if map c_tolower (drop (length file - 4) file) = ''.sav'' then Sram else Rom))"
  using detect_space_short [of "file"] detect_space_long [of "file"] by simp

theorem detect_space_witness:
  "length ''sav'' < 4 \<and> detect_space ''sav'' = Inl BufferOverrun \<and>
   4 \<le> length ''game.SAV'' \<and> length ''game.SAV'' < 2 ^ 64 \<and> detect_space ''game.SAV'' = Inr Sram \<and>
   4 \<le> length ''game.gb'' \<and> length ''game.gb'' < 2 ^ 64 \<and> detect_space ''game.gb'' = Inr Rom"
  using detect_space_rule [of "''sav''"] detect_space_rule [of "''game.SAV''"]
    detect_space_rule [of "''game.gb''"]
  by (simp add: c_tolower_eval)

end
